theory Spec2Isabelle
  imports Main "HOL-Library.Sublist"
begin

section \<open>Python text, bytes and JSON-shaped values\<close>

text \<open>
  A Python \<^verbatim>\<open>str\<close> is a sequence of Unicode code points; it is modelled as a list of
  natural numbers (code points below \<open>0x110000\<close>), so that \<open>length\<close> counts what Python's
  \<^verbatim>\<open>len\<close> counts and the non-ASCII behaviour of \<^verbatim>\<open>json.dumps\<close> can be written out.
  Bytes are a list of natural numbers below 256. \<open>lit\<close> turns an ASCII literal of the
  theory into such a text.

  The model follows CPython 3.11 with its \<^verbatim>\<open>json\<close>, \<^verbatim>\<open>gzip\<close> and \<^verbatim>\<open>sqlite3\<close> modules and
  SQLite with its default limits. Of the limits on sizes it has the two that the read
  paths meet at ordinary sizes: the 4300 digits of an integer literal in \<^verbatim>\<open>json.loads\<close>
  and the 50000 bytes of a \<^verbatim>\<open>LIKE\<close> pattern. The recursion limit of the interpreter, the
  same limit of 4300 digits in \<^verbatim>\<open>json.dumps\<close>, SQLite's limit of \<open>10\<^sup>9\<close> bytes on a string
  and the exhaustion of memory are outside the model.
\<close>

type_synonym pystr = "nat list"
type_synonym bytes = "nat list"

definition lit :: "string \<Rightarrow> pystr" where
  "lit s = map of_char s"

text \<open>
  The exceptions that can leave the Logger. \<open>OSError\<close> and \<open>DatabaseError\<close> stand for
  whatever the file system (through \<^verbatim>\<open>gzip\<close>) and SQLite (through \<^verbatim>\<open>sqlite3\<close>) raise
  when they fail; \<open>OperationalError\<close> is SQLite's refusal of a statement, \<open>ValueError\<close> the
  refusal of an integer literal that is too long. \<open>OutOfFuel\<close> is an outcome of the
  model of \<^verbatim>\<open>json.loads\<close> only, and one that \<open>loads\<close> never has (see there).
\<close>

datatype error =
    UnicodeEncodeError
  | OverflowError
  | OSError
  | DatabaseError
  | OperationalError
  | JSONDecodeError
  | ValueError
  | OutOfFuel

text \<open>
  A Python float passes through the program without arithmetic: it is read by
  \<^verbatim>\<open>json.loads\<close> and written by \<^verbatim>\<open>json.dumps\<close>. It is modelled by what \<^verbatim>\<open>repr\<close> shows of
  it: \<open>FNum neg m decpt\<close> is the float with sign \<open>neg\<close> whose shortest decimal digits are
  those of \<open>m\<close>, with the decimal point \<open>decpt\<close> places after their start (zero is
  \<open>FNum neg 0 1\<close>); \<open>FInf neg\<close> and \<open>FNaN\<close> are the infinities and not-a-number.
\<close>

datatype pyfloat =
    FNaN
  | FInf bool
  | FNum bool nat int

text \<open>
  The payload is typed \<^verbatim>\<open>Dict[str, Any]\<close> and reaches \<^verbatim>\<open>Logger.append\<close> from
  \<^verbatim>\<open>json.loads\<close> (the \<^verbatim>\<open>ingest\<close> command). The values are those of JSON; a dict keeps its
  insertion order, so it is an association list.
\<close>

datatype pyval =
    PNone
  | PBool bool
  | PInt int
  | PFloat pyfloat
  | PStr pystr
  | PList "pyval list"
  | PDict "(pystr \<times> pyval) list"

subsection \<open>\<^verbatim>\<open>str.encode()\<close>: UTF-8, strict\<close>

definition is_surrogate :: "nat \<Rightarrow> bool" where
  "is_surrogate c = (0xD800 \<le> c \<and> c \<le> 0xDFFF)"

definition utf8_char :: "nat \<Rightarrow> bytes" where
  "utf8_char c =
     (if c < 0x80 then [c]
      else if c < 0x800 then [0xC0 + c div 64, 0x80 + c mod 64]
      else if c < 0x10000 then [0xE0 + c div 4096, 0x80 + c div 64 mod 64, 0x80 + c mod 64]
      else [0xF0 + c div 262144, 0x80 + c div 4096 mod 64, 0x80 + c div 64 mod 64,
            0x80 + c mod 64])"

definition encode :: "pystr \<Rightarrow> error + bytes" where
  "encode s =
     (if list_ex is_surrogate s then Inl UnicodeEncodeError
      else Inr (concat (map utf8_char s)))"

subsection \<open>\<^verbatim>\<open>json.dumps\<close>\<close>

text \<open>
  \<^verbatim>\<open>json.dumps(obj)\<close> with the default separators \<^verbatim>\<open>', '\<close> and \<^verbatim>\<open>': '\<close>, keys in
  insertion order, and \<^verbatim>\<open>ensure_ascii\<close> as the first argument of the model.
  \<open>escape_dct\<close> is \<^verbatim>\<open>ESCAPE_DCT\<close> of \<^verbatim>\<open>json.encoder\<close>; with \<^verbatim>\<open>ensure_ascii\<close> every code
  point outside \<^verbatim>\<open>' '..'~'\<close> is written as \<^verbatim>\<open>\uXXXX\<close>, as a surrogate pair above
  \<open>0xFFFF\<close>; without it only the quote, the backslash and the control characters below
  \<open>0x20\<close> are escaped.
\<close>

definition hex_digit :: "nat \<Rightarrow> nat" where
  "hex_digit d = (if d < 10 then 48 + d else 87 + d)"

definition hex4 :: "nat \<Rightarrow> pystr" where
  "hex4 n = [hex_digit (n div 4096 mod 16), hex_digit (n div 256 mod 16),
             hex_digit (n div 16 mod 16), hex_digit (n mod 16)]"

definition u_escape :: "nat \<Rightarrow> pystr" where
  "u_escape n = [92, 117] @ hex4 n"

definition escape_dct :: "nat \<Rightarrow> pystr option" where
  "escape_dct c =
     (if c = 92 then Some [92, 92]
      else if c = 34 then Some [92, 34]
      else if c = 8 then Some [92, 98]
      else if c = 12 then Some [92, 102]
      else if c = 10 then Some [92, 110]
      else if c = 13 then Some [92, 114]
      else if c = 9 then Some [92, 116]
      else if c < 32 then Some (u_escape c)
      else None)"

definition escape_char :: "bool \<Rightarrow> nat \<Rightarrow> pystr" where
  "escape_char ensure_ascii c =
     (case escape_dct c of
        Some e \<Rightarrow> e
      | None \<Rightarrow>
          if ensure_ascii \<and> 126 < c then
            (if c < 0x10000 then u_escape c
             else u_escape (0xD800 + (c - 0x10000) div 1024 mod 1024)
                  @ u_escape (0xDC00 + (c - 0x10000) mod 1024))
          else [c])"

definition encode_basestring :: "bool \<Rightarrow> pystr \<Rightarrow> pystr" where
  "encode_basestring ensure_ascii s = [34] @ concat (map (escape_char ensure_ascii) s) @ [34]"

fun digits :: "nat \<Rightarrow> pystr" where
  "digits n = (if n < 10 then [48 + n] else digits (n div 10) @ [48 + n mod 10])"

declare digits.simps [simp del]

definition int_repr :: "int \<Rightarrow> pystr" where
  "int_repr i = (if i < 0 then 45 # digits (nat (- i)) else digits (nat i))"

fun join :: "pystr \<Rightarrow> pystr list \<Rightarrow> pystr" where
  "join sep [] = []"
| "join sep [x] = x"
| "join sep (x # y # ys) = x @ sep @ join sep (y # ys)"

text \<open>
  \<^verbatim>\<open>float.__repr__\<close>, on the digits and the position of the decimal point: exponent
  notation, with an exponent of at least two digits, when the point lies more than 16
  places after or more than 3 places before the first digit, and positional notation with
  at least one digit after the point otherwise. \<open>float_json\<close> is \<^verbatim>\<open>floatstr\<close> of
  \<^verbatim>\<open>json.encoder\<close>, which names the values that are not finite.
\<close>

definition exp_digits :: "nat \<Rightarrow> pystr" where
  "exp_digits e = (if e < 10 then 48 # digits e else digits e)"

definition float_repr :: "bool \<Rightarrow> nat \<Rightarrow> int \<Rightarrow> pystr" where
  "float_repr neg m decpt =
     (if neg then [45] else []) @
     (if 16 < decpt \<or> decpt \<le> - 4 then
        hd (digits m) # (if 1 < length (digits m) then 46 # tl (digits m) else [])
        @ [101, if decpt - 1 < 0 then 45 else 43] @ exp_digits (nat \<bar>decpt - 1\<bar>)
      else if decpt \<le> 0 then
        [48, 46] @ replicate (nat (- decpt)) 48 @ digits m
      else if int (length (digits m)) \<le> decpt then
        digits m @ replicate (nat decpt - length (digits m)) 48 @ [46, 48]
      else
        take (nat decpt) (digits m) @ [46] @ drop (nat decpt) (digits m))"

definition float_json :: "pyfloat \<Rightarrow> pystr" where
  "float_json x =
     (case x of
        FNaN \<Rightarrow> lit ''NaN''
      | FInf neg \<Rightarrow> (if neg then lit ''-Infinity'' else lit ''Infinity'')
      | FNum neg m decpt \<Rightarrow> float_repr neg m decpt)"

fun dumps :: "bool \<Rightarrow> pyval \<Rightarrow> pystr" where
  "dumps ea PNone = lit ''null''"
| "dumps ea (PBool b) = (if b then lit ''true'' else lit ''false'')"
| "dumps ea (PInt i) = int_repr i"
| "dumps ea (PFloat x) = float_json x"
| "dumps ea (PStr s) = encode_basestring ea s"
| "dumps ea (PList xs) = [91] @ join [44, 32] (map (dumps ea) xs) @ [93]"
| "dumps ea (PDict kvs) =
     [123] @ join [44, 32]
               (map (\<lambda>(k, v). encode_basestring ea k @ [58, 32] @ dumps ea v) kvs) @ [125]"

subsection \<open>\<^verbatim>\<open>json.loads\<close>\<close>

text \<open>
  The decoder of \<^verbatim>\<open>json.decoder\<close> and \<^verbatim>\<open>json.scanner\<close>, on the text that is left to read:
  \<^verbatim>\<open>scanstring\<close> (strict mode), \<^verbatim>\<open>NUMBER_RE\<close>, \<^verbatim>\<open>JSONObject\<close>, \<^verbatim>\<open>JSONArray\<close> and
  \<^verbatim>\<open>JSONDecoder.decode\<close>. Every failure of the decoder is the one value
  \<open>JSONDecodeError\<close>. A number with a fraction or an exponent is handed, as text, to
  \<^verbatim>\<open>parse_float\<close>, which is Python's \<^verbatim>\<open>float\<close> and a parameter of the model; an integer
  literal of more than 4300 digits raises \<open>ValueError\<close>. The mutual recursion of
  \<^verbatim>\<open>scan_once\<close>, \<^verbatim>\<open>JSONArray\<close> and \<^verbatim>\<open>JSONObject\<close> runs on fuel; \<open>loads\<close> supplies
  \<open>2 * length s + 2\<close>, more than the calls a text of that length can make.
\<close>

definition is_ws :: "nat \<Rightarrow> bool" where
  "is_ws c = (c = 32 \<or> c = 9 \<or> c = 10 \<or> c = 13)"

fun skip_ws :: "pystr \<Rightarrow> pystr" where
  "skip_ws [] = []"
| "skip_ws (c # cs) = (if is_ws c then skip_ws cs else c # cs)"

definition hex_val :: "nat \<Rightarrow> nat option" where
  "hex_val c =
     (if 48 \<le> c \<and> c \<le> 57 then Some (c - 48)
      else if 97 \<le> c \<and> c \<le> 102 then Some (c - 87)
      else if 65 \<le> c \<and> c \<le> 70 then Some (c - 55)
      else None)"

fun decode_uXXXX :: "pystr \<Rightarrow> (nat \<times> pystr) option" where
  "decode_uXXXX (a # b # c # d # rest) =
     (case (hex_val a, hex_val b, hex_val c, hex_val d) of
        (Some x, Some y, Some z, Some w) \<Rightarrow> Some (((x * 16 + y) * 16 + z) * 16 + w, rest)
      | _ \<Rightarrow> None)"
| "decode_uXXXX _ = None"

definition scan_unicode :: "pystr \<Rightarrow> error + (nat \<times> pystr)" where
  "scan_unicode s =
     (case decode_uXXXX s of
        None \<Rightarrow> Inl JSONDecodeError
      | Some (uni, rest) \<Rightarrow>
          if 0xD800 \<le> uni \<and> uni \<le> 0xDBFF \<and> take 2 rest = [92, 117] then
            (case decode_uXXXX (drop 2 rest) of
               None \<Rightarrow> Inl JSONDecodeError
             | Some (uni2, rest2) \<Rightarrow>
                 if 0xDC00 \<le> uni2 \<and> uni2 \<le> 0xDFFF
                 then Inr (0x10000 + ((uni - 0xD800) * 1024 + (uni2 - 0xDC00)), rest2)
                 else Inr (uni, rest))
          else Inr (uni, rest))"

definition backslash :: "nat \<Rightarrow> nat option" where
  "backslash e =
     (if e = 34 then Some 34
      else if e = 92 then Some 92
      else if e = 47 then Some 47
      else if e = 98 then Some 8
      else if e = 102 then Some 12
      else if e = 110 then Some 10
      else if e = 114 then Some 13
      else if e = 116 then Some 9
      else None)"

definition cons_char :: "nat \<Rightarrow> error + (pystr \<times> pystr) \<Rightarrow> error + (pystr \<times> pystr)" where
  "cons_char c r = (case r of Inl e \<Rightarrow> Inl e | Inr (s, rest) \<Rightarrow> Inr (c # s, rest))"

lemma decode_uXXXX_length: "decode_uXXXX s = Some (u, rest) \<Longrightarrow> length rest < length s"
  by (induction s rule: decode_uXXXX.induct) (auto split: option.splits)

lemma scan_unicode_length: "scan_unicode s = Inr (u, rest) \<Longrightarrow> length rest < length s"
  by (auto simp: scan_unicode_def split: option.splits if_splits dest!: decode_uXXXX_length)

function scanstring :: "pystr \<Rightarrow> error + (pystr \<times> pystr)" where
  "scanstring [] = Inl JSONDecodeError"
| "scanstring (c # cs) =
     (if c = 34 then Inr ([], cs)
      else if c = 92 then
        (case cs of
           [] \<Rightarrow> Inl JSONDecodeError
         | e # es \<Rightarrow>
             if e = 117 then
               (case scan_unicode es of
                  Inl err \<Rightarrow> Inl err
                | Inr (uni, rest) \<Rightarrow> cons_char uni (scanstring rest))
             else
               (case backslash e of
                  None \<Rightarrow> Inl JSONDecodeError
                | Some ch \<Rightarrow> cons_char ch (scanstring es)))
      else if c < 32 then Inl JSONDecodeError
      else cons_char c (scanstring cs))"
  by pat_completeness auto
termination
  by (relation "measure length") (auto dest: scan_unicode_length)


definition is_digit :: "nat \<Rightarrow> bool" where
  "is_digit c = (48 \<le> c \<and> c \<le> 57)"

definition digits_val :: "pystr \<Rightarrow> nat" where
  "digits_val ds = foldl (\<lambda>acc d. 10 * acc + (d - 48)) 0 ds"

definition match_integer :: "pystr \<Rightarrow> (pystr \<times> pystr) option" where
  "match_integer s =
     (case s of
        [] \<Rightarrow> None
      | d # ds \<Rightarrow>
          if d = 48 then Some ([d], ds)
          else if is_digit d then Some (d # takeWhile is_digit ds, dropWhile is_digit ds)
          else None)"

definition match_frac :: "pystr \<Rightarrow> pystr \<times> pystr" where
  "match_frac s =
     (case s of
        c # d # r \<Rightarrow>
          if c = 46 \<and> is_digit d
          then (c # takeWhile is_digit (d # r), dropWhile is_digit (d # r))
          else ([], s)
      | _ \<Rightarrow> ([], s))"

definition match_exp :: "pystr \<Rightarrow> pystr \<times> pystr" where
  "match_exp s =
     (case s of
        e # x # r \<Rightarrow>
          if (e = 101 \<or> e = 69) \<and> is_digit x
          then (e # takeWhile is_digit (x # r), dropWhile is_digit (x # r))
          else if (e = 101 \<or> e = 69) \<and> (x = 43 \<or> x = 45)
                  \<and> (case r of y # _ \<Rightarrow> is_digit y | [] \<Rightarrow> False)
          then (e # x # takeWhile is_digit r, dropWhile is_digit r)
          else ([], s)
      | _ \<Rightarrow> ([], s))"

definition match_number :: "(pystr \<Rightarrow> pyfloat) \<Rightarrow> pystr \<Rightarrow> error + (pyval \<times> pystr)" where
  "match_number parse_float s =
     (let neg = (case s of c # _ \<Rightarrow> c = 45 | [] \<Rightarrow> False);
          body = (if neg then tl s else s)
      in case match_integer body of
           None \<Rightarrow> Inl JSONDecodeError
         | Some (ds, r1) \<Rightarrow>
             (case match_frac r1 of
                (frac, r2) \<Rightarrow>
                  (case match_exp r2 of
                     (ex, r3) \<Rightarrow>
                       if frac = [] \<and> ex = [] then
                         (if 4300 < length ds then Inl ValueError
                          else Inr (PInt (if neg then - int (digits_val ds)
                                          else int (digits_val ds)), r1))
                       else
                         Inr (PFloat (parse_float ((if neg then [45] else []) @ ds @ frac @ ex)),
                              r3))))"

fun dict_set :: "pystr \<Rightarrow> pyval \<Rightarrow> (pystr \<times> pyval) list \<Rightarrow> (pystr \<times> pyval) list" where
  "dict_set k v [] = [(k, v)]"
| "dict_set k v (p # ps) = (if fst p = k then (k, v) # ps else p # dict_set k v ps)"

definition dict_of_pairs :: "(pystr \<times> pyval) list \<Rightarrow> (pystr \<times> pyval) list" where
  "dict_of_pairs pairs = foldl (\<lambda>d (k, v). dict_set k v d) [] pairs"

definition starts_with :: "pystr \<Rightarrow> pystr \<Rightarrow> bool" where
  "starts_with p s = (take (length p) s = p)"

definition scan_atom :: "(pystr \<Rightarrow> pyfloat) \<Rightarrow> pystr \<Rightarrow> error + (pyval \<times> pystr)" where
  "scan_atom parse_float s =
     (case s of
        [] \<Rightarrow> Inl JSONDecodeError
      | c # cs \<Rightarrow>
          if c = 34 then
            (case scanstring cs of Inl e \<Rightarrow> Inl e | Inr (str, rest) \<Rightarrow> Inr (PStr str, rest))
          else if starts_with (lit ''null'') s then Inr (PNone, drop 4 s)
          else if starts_with (lit ''true'') s then Inr (PBool True, drop 4 s)
          else if starts_with (lit ''false'') s then Inr (PBool False, drop 5 s)
          else if starts_with (lit ''NaN'') s then Inr (PFloat FNaN, drop 3 s)
          else if starts_with (lit ''Infinity'') s then Inr (PFloat (FInf False), drop 8 s)
          else if starts_with (lit ''-Infinity'') s then Inr (PFloat (FInf True), drop 9 s)
          else match_number parse_float s)"

datatype delim = Close pystr | More pystr | Bad

definition next_delim :: "nat \<Rightarrow> pystr \<Rightarrow> delim" where
  "next_delim close s =
     (case skip_ws s of
        [] \<Rightarrow> Bad
      | d # ds \<Rightarrow> if d = close then Close ds else if d = 44 then More (skip_ws ds) else Bad)"

definition parse_key :: "pystr \<Rightarrow> error + (pystr \<times> pystr)" where
  "parse_key s =
     (case s of
        [] \<Rightarrow> Inl JSONDecodeError
      | q # cs \<Rightarrow>
          if q \<noteq> 34 then Inl JSONDecodeError
          else
            (case scanstring cs of
               Inl e \<Rightarrow> Inl e
             | Inr (key, r1) \<Rightarrow>
                 (case skip_ws r1 of
                    [] \<Rightarrow> Inl JSONDecodeError
                  | colon # r2 \<Rightarrow>
                      if colon = 58 then Inr (key, skip_ws r2) else Inl JSONDecodeError)))"

definition with_value :: "('a \<Rightarrow> 'b) \<Rightarrow> error + ('a \<times> pystr) \<Rightarrow> error + ('b \<times> pystr)" where
  "with_value g r = (case r of Inl e \<Rightarrow> Inl e | Inr (x, rest) \<Rightarrow> Inr (g x, rest))"

fun scan_once :: "(pystr \<Rightarrow> pyfloat) \<Rightarrow> nat \<Rightarrow> pystr \<Rightarrow> error + (pyval \<times> pystr)"
  and parse_items :: "(pystr \<Rightarrow> pyfloat) \<Rightarrow> nat \<Rightarrow> pystr \<Rightarrow> error + (pyval list \<times> pystr)"
  and parse_members ::
    "(pystr \<Rightarrow> pyfloat) \<Rightarrow> nat \<Rightarrow> pystr \<Rightarrow> error + ((pystr \<times> pyval) list \<times> pystr)"
where
  "scan_once pf 0 s = Inl OutOfFuel"
| "scan_once pf (Suc f) s =
     (if starts_with [123] s then
        (if starts_with [125] (skip_ws (tl s)) then Inr (PDict [], tl (skip_ws (tl s)))
         else with_value (\<lambda>pairs. PDict (dict_of_pairs pairs))
                (parse_members pf f (skip_ws (tl s))))
      else if starts_with [91] s then
        (if starts_with [93] (skip_ws (tl s)) then Inr (PList [], tl (skip_ws (tl s)))
         else with_value PList (parse_items pf f (skip_ws (tl s))))
      else scan_atom pf s)"
| "parse_items pf 0 s = Inl OutOfFuel"
| "parse_items pf (Suc f) s =
     (case scan_once pf f s of
        Inl e \<Rightarrow> Inl e
      | Inr (v, rest) \<Rightarrow>
          (case next_delim 93 rest of
             Close r \<Rightarrow> Inr ([v], r)
           | More r \<Rightarrow> with_value (Cons v) (parse_items pf f r)
           | Bad \<Rightarrow> Inl JSONDecodeError))"
| "parse_members pf 0 s = Inl OutOfFuel"
| "parse_members pf (Suc f) s =
     (case parse_key s of
        Inl e \<Rightarrow> Inl e
      | Inr (key, r) \<Rightarrow>
          (case scan_once pf f r of
             Inl e \<Rightarrow> Inl e
           | Inr (v, rest) \<Rightarrow>
               (case next_delim 125 rest of
                  Close r' \<Rightarrow> Inr ([(key, v)], r')
                | More r' \<Rightarrow> with_value (Cons (key, v)) (parse_members pf f r')
                | Bad \<Rightarrow> Inl JSONDecodeError)))"

definition loads :: "(pystr \<Rightarrow> pyfloat) \<Rightarrow> pystr \<Rightarrow> error + pyval" where
  "loads parse_float s =
     (case scan_once parse_float (2 * length s + 2) (skip_ws s) of
        Inl e \<Rightarrow> Inl e
      | Inr (v, rest) \<Rightarrow> if skip_ws rest = [] then Inr v else Inl JSONDecodeError)"

section \<open>The two stores\<close>

text \<open>
  The Append Log is the gzip file opened in text mode \<^verbatim>\<open>"at"\<close>: the sequence of the
  texts written to it, one per \<^verbatim>\<open>f.write\<close>. The Index Store is the table
  \<^verbatim>\<open>audit_index\<close>: its rows in rowid order, which is insertion order.
\<close>

record row =
  ts :: int
  sha :: pystr
  source :: pystr
  payload :: pystr

record store =
  log_lines :: "pystr list"
  audit_index :: "row list"

text \<open>
  What the environment does to one call of \<^verbatim>\<open>append\<close>: \<open>log_fault\<close> is the exception
  the file system raises while the log is opened, written and closed, \<open>db_fault\<close> the one
  SQLite raises while the row is inserted and committed; \<open>None\<close> is an operation
  that works.
\<close>

record faults =
  log_fault :: "error option"
  db_fault :: "error option"

definition no_faults :: faults where
  "no_faults = \<lparr>log_fault = None, db_fault = None\<rparr>"

text \<open>
  \<^verbatim>\<open>with gzip.open(path, "at", encoding="utf-8") as f: f.write(text)\<close>. The text layer
  encodes strictly, so a text with a surrogate code point raises and nothing is added.
\<close>

definition gzip_write :: "faults \<Rightarrow> pystr \<Rightarrow> pystr list \<Rightarrow> error + pystr list" where
  "gzip_write env text lg =
     (case log_fault env of
        Some e \<Rightarrow> Inl e
      | None \<Rightarrow> (case encode text of Inl e \<Rightarrow> Inl e | Inr _ \<Rightarrow> Inr (lg @ [text])))"

text \<open>
  Binding the parameters of a statement: \<^verbatim>\<open>sqlite3\<close> takes a Python int only in the
  range of a signed 64-bit integer and a \<^verbatim>\<open>str\<close> only if it encodes to UTF-8.
\<close>

definition bind_int :: "int \<Rightarrow> error + int" where
  "bind_int i = (if - (2 ^ 63) \<le> i \<and> i < 2 ^ 63 then Inr i else Inl OverflowError)"

definition bind_text :: "pystr \<Rightarrow> error + pystr" where
  "bind_text s = (case encode s of Inl e \<Rightarrow> Inl e | Inr _ \<Rightarrow> Inr s)"

text \<open>\<^verbatim>\<open>INSERT INTO audit_index VALUES (?, ?, ?, ?)\<close> and \<^verbatim>\<open>conn.commit()\<close>.\<close>

definition sqlite_insert :: "faults \<Rightarrow> row \<Rightarrow> row list \<Rightarrow> error + row list" where
  "sqlite_insert env r tbl =
     (case db_fault env of
        Some e \<Rightarrow> Inl e
      | None \<Rightarrow>
          (case bind_int (ts r) of
             Inl e \<Rightarrow> Inl e
           | Inr t \<Rightarrow>
               (case bind_text (sha r) of
                  Inl e \<Rightarrow> Inl e
                | Inr h \<Rightarrow>
                    (case bind_text (source r) of
                       Inl e \<Rightarrow> Inl e
                     | Inr s \<Rightarrow>
                         (case bind_text (payload r) of
                            Inl e \<Rightarrow> Inl e
                          | Inr p \<Rightarrow>
                              Inr (tbl @ [\<lparr>ts = t, sha = h, source = s, payload = p\<rparr>]))))))"

text \<open>
  SQLite's \<^verbatim>\<open>LIKE\<close> (no \<^verbatim>\<open>ESCAPE\<close>): \<^verbatim>\<open>%\<close> matches any sequence of characters,
  \<^verbatim>\<open>_\<close> any one character, and every other character matches itself, the ASCII
  letters without regard to case. Pattern and text are read as C strings, up to the first
  NUL character, and character by character as SQLite reads UTF-8, which takes U+FFFE
  and U+FFFF for U+FFFD. A pattern of more than 50000 bytes is refused with
  \<open>OperationalError\<close> as soon as a row is compared with it.
\<close>

definition sql_lower :: "nat \<Rightarrow> nat" where
  "sql_lower c = (if 65 \<le> c \<and> c \<le> 90 then c + 32 else c)"

definition sql_read :: "nat \<Rightarrow> nat" where
  "sql_read c = (if c = 0xFFFE \<or> c = 0xFFFF then 0xFFFD else c)"

fun like_match :: "pystr \<Rightarrow> pystr \<Rightarrow> bool" where
  "like_match [] s = (s = [])"
| "like_match (p # ps) s =
     (if p = 37 then
        (like_match ps s \<or> (case s of [] \<Rightarrow> False | c # cs \<Rightarrow> like_match (p # ps) cs))
      else
        (case s of
           [] \<Rightarrow> False
         | c # cs \<Rightarrow>
             (p = 95 \<or> sql_lower (sql_read p) = sql_lower (sql_read c)) \<and> like_match ps cs))"

definition c_string :: "pystr \<Rightarrow> pystr" where
  "c_string s = takeWhile (\<lambda>c. c \<noteq> 0) s"

definition sql_like :: "pystr \<Rightarrow> pystr \<Rightarrow> bool" where
  "sql_like pat s = like_match (c_string pat) (c_string s)"

definition pattern_too_long :: "pystr \<Rightarrow> bool" where
  "pattern_too_long pat = (50000 < length (concat (map utf8_char pat)))"

text \<open>
  \<^verbatim>\<open>ORDER BY ts DESC\<close> names no second key. SQLite sorts a query with a \<^verbatim>\<open>LIMIT\<close> on the
  key followed by the sequence number of the row in the table scan, so rows of equal
  \<^verbatim>\<open>ts\<close> keep their rowid order: a stable sort. \<^verbatim>\<open>LIMIT n\<close> with a negative \<open>n\<close>
  is no limit, and with \<^verbatim>\<open>LIMIT 0\<close> the table is not scanned at all.
\<close>

definition order_by_ts_desc :: "row list \<Rightarrow> row list" where
  "order_by_ts_desc rows = sort_key (\<lambda>r. - ts r) rows"

definition sql_limit :: "int \<Rightarrow> 'a list \<Rightarrow> 'a list" where
  "sql_limit n xs = (if n < 0 then xs else take (nat n) xs)"

section \<open>The Logger\<close>

text \<open>
  \<^verbatim>\<open>hashlib.sha256(b).hexdigest()\<close> is the parameter \<open>sha256\<close> of the model, a function
  from bytes to text; the reading of the clock \<^verbatim>\<open>now_ts()\<close> is the parameter \<open>now\<close>.
  The lock makes the calls of \<^verbatim>\<open>append\<close> run one after the other, which is how they
  are modelled.
\<close>

text \<open>\<^verbatim>\<open>Logger()\<close> on new paths: no log file yet, and the table just created.\<close>

definition Logger_init :: store where
  "Logger_init = \<lparr>log_lines = [], audit_index = []\<rparr>"

text \<open>Line 88: \<^verbatim>\<open>hashlib.sha256(json.dumps(payload).encode()).hexdigest()\<close>.\<close>

definition fingerprint :: "(bytes \<Rightarrow> pystr) \<Rightarrow> pyval \<Rightarrow> error + pystr" where
  "fingerprint sha256 pl =
     (case encode (dumps True pl) of Inl e \<Rightarrow> Inl e | Inr b \<Rightarrow> Inr (sha256 b))"

text \<open>Lines 89 and 93: the text of the record, \<^verbatim>\<open>json.dumps(rec, ensure_ascii=False) + "\n"\<close>.\<close>

definition record_line :: "int \<Rightarrow> pystr \<Rightarrow> pystr \<Rightarrow> pyval \<Rightarrow> pystr" where
  "record_line now h src pl =
     dumps False (PDict [(lit ''ts'', PInt now), (lit ''sha'', PStr h),
                         (lit ''source'', PStr src), (lit ''payload'', pl)]) @ [10]"

definition Logger_append ::
  "(bytes \<Rightarrow> pystr) \<Rightarrow> int \<Rightarrow> faults \<Rightarrow> pystr \<Rightarrow> pyval \<Rightarrow> store \<Rightarrow> (error + unit) \<times> store" where
  "Logger_append sha256 now env src pl st =
     (case fingerprint sha256 pl of
        Inl e \<Rightarrow> (Inl e, st)
      | Inr h \<Rightarrow>
          (case gzip_write env (record_line now h src pl) (log_lines st) of
             Inl e \<Rightarrow> (Inl e, st)
           | Inr lg \<Rightarrow>
               (case sqlite_insert env
                       \<lparr>ts = now, sha = h, source = src, payload = dumps False pl\<rparr>
                       (audit_index st) of
                  Inl e \<Rightarrow> (Inl e, st\<lparr>log_lines := lg\<rparr>)
                | Inr tbl \<Rightarrow> (Inr (), st\<lparr>log_lines := lg, audit_index := tbl\<rparr>))))"

text \<open>The dictionaries that \<^verbatim>\<open>search\<close> and \<^verbatim>\<open>tail\<close> return, with the payload decoded.\<close>

record entry =
  e_ts :: int
  e_sha :: pystr
  e_source :: pystr
  e_payload :: pyval

fun decode_rows :: "(pystr \<Rightarrow> pyfloat) \<Rightarrow> row list \<Rightarrow> error + entry list" where
  "decode_rows pf [] = Inr []"
| "decode_rows pf (r # rs) =
     (case loads pf (payload r) of
        Inl e \<Rightarrow> Inl e
      | Inr v \<Rightarrow>
          (case decode_rows pf rs of
             Inl e \<Rightarrow> Inl e
           | Inr es \<Rightarrow>
               Inr (\<lparr>e_ts = ts r, e_sha = sha r, e_source = source r, e_payload = v\<rparr> # es)))"

definition search_rows :: "pystr \<Rightarrow> int \<Rightarrow> store \<Rightarrow> row list" where
  "search_rows pat n st =
     sql_limit n (order_by_ts_desc (filter (\<lambda>r. sql_like pat (payload r)) (audit_index st)))"

definition Logger_search ::
  "(pystr \<Rightarrow> pyfloat) \<Rightarrow> pystr \<Rightarrow> int \<Rightarrow> store \<Rightarrow> error + entry list" where
  "Logger_search parse_float term limit st =
     (case bind_text ([37] @ term @ [37]) of
        Inl e \<Rightarrow> Inl e
      | Inr pat \<Rightarrow>
          (case bind_int limit of
             Inl e \<Rightarrow> Inl e
           | Inr n \<Rightarrow>
               if n \<noteq> 0 \<and> audit_index st \<noteq> [] \<and> pattern_too_long pat
               then Inl OperationalError
               else decode_rows parse_float (search_rows pat n st)))"

definition tail_rows :: "int \<Rightarrow> store \<Rightarrow> row list" where
  "tail_rows n st = sql_limit n (order_by_ts_desc (audit_index st))"

definition Logger_tail :: "(pystr \<Rightarrow> pyfloat) \<Rightarrow> int \<Rightarrow> store \<Rightarrow> error + entry list" where
  "Logger_tail parse_float n st =
     (case bind_int n of
        Inl e \<Rightarrow> Inl e
      | Inr k \<Rightarrow> decode_rows parse_float (tail_rows k st))"

text \<open>The \<^verbatim>\<open>stats\<close> command of \<^verbatim>\<open>main\<close>: \<^verbatim>\<open>SELECT COUNT(*) FROM audit_index\<close>.\<close>

definition stats_count :: "store \<Rightarrow> nat" where
  "stats_count st = length (audit_index st)"

text \<open>
  The log line that belongs to an index row: the record of lines 89 and 93 written with the
  columns of the row, the \<^verbatim>\<open>payload\<close> column as it is stored.
\<close>

definition log_line_of :: "row \<Rightarrow> pystr" where
  "log_line_of r =
     lit ''{'' @ encode_basestring False (lit ''ts'') @ lit '': '' @ int_repr (ts r)
     @ lit '', '' @ encode_basestring False (lit ''sha'') @ lit '': ''
     @ encode_basestring False (sha r)
     @ lit '', '' @ encode_basestring False (lit ''source'') @ lit '': ''
     @ encode_basestring False (source r)
     @ lit '', '' @ encode_basestring False (lit ''payload'') @ lit '': '' @ payload r
     @ lit ''}'' @ [10]"

text \<open>
  A sequence of calls of \<^verbatim>\<open>append\<close> on one Logger, each with its own clock reading and
  environment; the results of the calls are collected in order.
\<close>

record call =
  c_now :: int
  c_env :: faults
  c_source :: pystr
  c_payload :: pyval

fun run_appends :: "(bytes \<Rightarrow> pystr) \<Rightarrow> call list \<Rightarrow> store \<Rightarrow> (error + unit) list \<times> store" where
  "run_appends sha256 [] st = ([], st)"
| "run_appends sha256 (c # cs) st =
     (case Logger_append sha256 (c_now c) (c_env c) (c_source c) (c_payload c) st of
        (res, st') \<Rightarrow>
          (case run_appends sha256 cs st' of (rs, st'') \<Rightarrow> (res # rs, st'')))"

text \<open>
  What \<^verbatim>\<open>hexdigest()\<close> of a SHA-256 object returns: 64 lower-case hexadecimal digits. The
  parameter \<open>sha256\<close> is assumed to return such a text where a claim needs the call of
  \<^verbatim>\<open>append\<close> to succeed.
\<close>

definition is_hexdigest :: "pystr \<Rightarrow> bool" where
  "is_hexdigest h =
     (length h = 64 \<and> list_all (\<lambda>c. (48 \<le> c \<and> c \<le> 57) \<or> (97 \<le> c \<and> c \<le> 102)) h)"

text \<open>
  An entry that \<^verbatim>\<open>tail\<close> or \<^verbatim>\<open>search\<close> returns belongs to a row of the table when it has
  the columns \<^verbatim>\<open>ts\<close>, \<^verbatim>\<open>sha\<close> and \<^verbatim>\<open>source\<close> of the row and the decoded payload text of
  the row as its payload. A row is decodable when \<^verbatim>\<open>json.loads\<close> accepts its payload text.
\<close>

definition entry_of_row :: "(pystr \<Rightarrow> pyfloat) \<Rightarrow> entry \<Rightarrow> row \<Rightarrow> bool" where
  "entry_of_row pf e r =
     (e_ts e = ts r \<and> e_sha e = sha r \<and> e_source e = source r
      \<and> loads pf (payload r) = Inr (e_payload e))"

definition decodable :: "(pystr \<Rightarrow> pyfloat) \<Rightarrow> row \<Rightarrow> bool" where
  "decodable pf r = (case loads pf (payload r) of Inl _ \<Rightarrow> False | Inr _ \<Rightarrow> True)"

text \<open>A digest function for the examples: the hexdigest of 64 zeros for every input.\<close>

definition zero_digest :: "bytes \<Rightarrow> pystr" where
  "zero_digest b = replicate 64 48"

text \<open>
  A float function for the examples. Python's \<^verbatim>\<open>float\<close> is not computed by the model, and
  no example reads a float from a text; the function returns zero.
\<close>

definition zero_float :: "pystr \<Rightarrow> pyfloat" where
  "zero_float s = FNum False 0 1"

text \<open>
  What Python can hold as a payload and \<^verbatim>\<open>json.dumps\<close> serializes: the keys of a dict
  are pairwise different, an integer has at most 4300 decimal digits, and the float zero
  has its decimal point after its one digit.
\<close>

fun payload_ok :: "pyval \<Rightarrow> bool" where
  "payload_ok (PInt i) = (length (digits (nat \<bar>i\<bar>)) \<le> 4300)"
| "payload_ok (PFloat (FNum neg m decpt)) = (0 < m \<or> decpt = 1)"
| "payload_ok (PList xs) = list_all payload_ok xs"
| "payload_ok (PDict kvs) =
     (distinct (map fst kvs) \<and> list_all (\<lambda>kv. payload_ok (snd kv)) kvs)"
| "payload_ok v = True"

text \<open>
  What \<^verbatim>\<open>json.loads\<close> reads from the text that \<^verbatim>\<open>json.dumps\<close> writes for a value: the
  value itself, with \<^verbatim>\<open>parse_float\<close> applied to the text of each finite float.
\<close>

fun reparse :: "(pystr \<Rightarrow> pyfloat) \<Rightarrow> pyval \<Rightarrow> pyval" where
  "reparse pf (PFloat (FNum neg m decpt)) = PFloat (pf (float_repr neg m decpt))"
| "reparse pf (PList xs) = PList (map (reparse pf) xs)"
| "reparse pf (PDict kvs) = PDict (map (\<lambda>kv. (fst kv, reparse pf (snd kv))) kvs)"
| "reparse pf v = v"

text \<open>
  The shape of the fraction and of the exponent in the text of a finite float: empty, or a
  point followed by digits; empty, or \<^verbatim>\<open>e\<close>, a sign and digits.
\<close>

definition frac_part :: "pystr \<Rightarrow> bool" where
  "frac_part fr =
     (case fr of [] \<Rightarrow> True | c # fs \<Rightarrow> c = 46 \<and> fs \<noteq> [] \<and> list_all is_digit fs)"

definition exp_part :: "pystr \<Rightarrow> bool" where
  "exp_part ex =
     (case ex of
        [] \<Rightarrow> True
      | e # r \<Rightarrow>
          (case r of
             [] \<Rightarrow> False
           | sg # es \<Rightarrow> e = 101 \<and> (sg = 43 \<or> sg = 45) \<and> es \<noteq> [] \<and> list_all is_digit es))"

section \<open>Facts about the serialization\<close>

lemma hex_digit_ascii: "d < 16 \<Longrightarrow> hex_digit d < 128"
  by (simp add: hex_digit_def)

lemma u_escape_ascii: "c \<in> set (u_escape n) \<Longrightarrow> c < 128"
  by (auto simp: u_escape_def hex4_def intro!: hex_digit_ascii)

lemma escape_char_ascii: "c \<in> set (escape_char True x) \<Longrightarrow> c < 128"
  by (auto simp: escape_char_def escape_dct_def split: option.splits if_splits
      dest: u_escape_ascii)

lemma encode_basestring_ascii: "c \<in> set (encode_basestring True s) \<Longrightarrow> c < 128"
  by (auto simp: encode_basestring_def dest: escape_char_ascii)

lemma digits_ascii: "c \<in> set (digits n) \<Longrightarrow> c < 128"
proof (induction n arbitrary: c rule: digits.induct)
  case (1 n)
  then show ?case
    by (subst (asm) (2) digits.simps) (auto split: if_splits)
qed

lemma int_repr_ascii: "c \<in> set (int_repr i) \<Longrightarrow> c < 128"
  by (auto simp: int_repr_def dest: digits_ascii split: if_splits)

lemma join_set: "c \<in> set (join sep xs) \<Longrightarrow> c \<in> set sep \<or> (\<exists>x \<in> set xs. c \<in> set x)"
  by (induction sep xs rule: join.induct) auto

lemma digits_nonempty: "digits n \<noteq> []"
  by (subst digits.simps) simp

lemma exp_digits_ascii: "c \<in> set (exp_digits e) \<Longrightarrow> c < 128"
  by (auto simp: exp_digits_def dest: digits_ascii split: if_splits)

lemma float_repr_ascii: "c \<in> set (float_repr neg m decpt) \<Longrightarrow> c < 128"
proof -
  assume c: "c \<in> set (float_repr neg m decpt)"
  have "x < 128" if "x \<in> set (take k (digits m)) \<or> x \<in> set (drop k (digits m))
      \<or> x \<in> set (tl (digits m)) \<or> x = hd (digits m)" for x k
    using that digits_nonempty [of m] digits_ascii [of x m]
    by (auto dest: in_set_takeD in_set_dropD list.set_sel(2) [rotated])
  note d = this
  from c show ?thesis
    by (auto simp: float_repr_def split: if_splits
        dest: digits_ascii exp_digits_ascii intro: d)
qed

lemma float_json_ascii: "c \<in> set (float_json x) \<Longrightarrow> c < 128"
  by (cases x) (auto simp: float_json_def lit_def dest: float_repr_ascii split: if_splits)

lemma dumps_ascii: "c \<in> set (dumps True v) \<Longrightarrow> c < 128"
proof (induction v arbitrary: c)
  case (PList xs)
  then show ?case by (auto dest!: join_set)
next
  case (PDict kvs)
  then show ?case
    by (fastforce dest!: join_set dest: encode_basestring_ascii)
qed (auto simp: lit_def dest: int_repr_ascii encode_basestring_ascii float_json_ascii
    split: if_splits)

lemma encode_ascii: "\<forall>c \<in> set s. c < 128 \<Longrightarrow> encode s = Inr s"
proof -
  assume a: "\<forall>c \<in> set s. c < 128"
  then have "\<not> list_ex is_surrogate s"
    by (auto simp: list_ex_iff is_surrogate_def)
  moreover from a have "concat (map utf8_char s) = s"
    by (induction s) (auto simp: utf8_char_def)
  ultimately show ?thesis by (simp add: encode_def)
qed

lemma fingerprint_eq: "fingerprint sha256 pl = Inr (sha256 (dumps True pl))"
  by (simp add: fingerprint_def encode_ascii dumps_ascii)

lemma record_line_eq:
  "record_line now h src pl =
     log_line_of \<lparr>ts = now, sha = h, source = src, payload = dumps False pl\<rparr>"
  by (simp add: record_line_def log_line_of_def lit_def)

lemma gzip_write_Inr: "gzip_write env text lg = Inr lg' \<Longrightarrow> lg' = lg @ [text]"
  by (auto simp: gzip_write_def split: option.splits sum.splits)

lemma sqlite_insert_Inr: "sqlite_insert env r tbl = Inr tbl' \<Longrightarrow> tbl' = tbl @ [r]"
  by (auto simp: sqlite_insert_def bind_int_def bind_text_def
      split: option.splits sum.splits if_splits)

lemma Logger_append_Inr:
  assumes "Logger_append sha256 now env src pl st = (Inr (), st')"
  shows "st' = st\<lparr>log_lines := log_lines st @ [record_line now (sha256 (dumps True pl)) src pl],
                  audit_index := audit_index st @
                    [\<lparr>ts = now, sha = sha256 (dumps True pl), source = src,
                      payload = dumps False pl\<rparr>]\<rparr>"
  using assms
  by (auto simp: Logger_append_def fingerprint_eq split: sum.splits
      dest!: gzip_write_Inr sqlite_insert_Inr)

lemma escape_char_surrogate: "is_surrogate c \<Longrightarrow> escape_char False c = [c]"
  by (simp add: escape_char_def escape_dct_def is_surrogate_def)

lemma encode_basestring_surrogate:
  "list_ex is_surrogate s \<Longrightarrow> list_ex is_surrogate (encode_basestring False s)"
proof -
  assume "list_ex is_surrogate s"
  then obtain c where c: "c \<in> set s" "is_surrogate c"
    by (auto simp: list_ex_iff)
  then have "c \<in> set (concat (map (escape_char False) s))"
    using escape_char_surrogate [of c] by (auto intro!: bexI [of _ c])
  with c(2) show ?thesis
    by (auto simp: list_ex_iff encode_basestring_def)
qed

lemma encode_Inr_iff: "(\<exists>b. encode s = Inr b) = (\<not> list_ex is_surrogate s)"
  by (simp add: encode_def)

lemma encode_Inl: "encode s = Inl e \<Longrightarrow> list_ex is_surrogate s"
  by (simp add: encode_def split: if_splits)

lemma log_line_of_encodes:
  assumes "encode (log_line_of r) = Inr b"
  shows "(\<exists>b. encode (sha r) = Inr b) \<and> (\<exists>b. encode (source r) = Inr b)
         \<and> (\<exists>b. encode (payload r) = Inr b)"
proof -
  from assms have n: "\<not> list_ex is_surrogate (log_line_of r)"
    by (simp add: encode_def split: if_splits)
  have "\<not> list_ex is_surrogate (sha r)" "\<not> list_ex is_surrogate (source r)"
    "\<not> list_ex is_surrogate (payload r)"
    using n encode_basestring_surrogate [of "sha r"] encode_basestring_surrogate [of "source r"]
    by (auto simp: log_line_of_def list_ex_iff)
  then show ?thesis by (simp add: encode_def)
qed

lemma Logger_append_success:
  assumes "log_fault env = None" and "db_fault env = None"
    and "encode (record_line now (sha256 (dumps True pl)) src pl) = Inr b"
    and "- (2 ^ 63) \<le> now" and "now < 2 ^ 63"
  shows "Logger_append sha256 now env src pl st =
           (Inr (), st\<lparr>log_lines := log_lines st @ [record_line now (sha256 (dumps True pl)) src pl],
                        audit_index := audit_index st @
                          [\<lparr>ts = now, sha = sha256 (dumps True pl), source = src,
                            payload = dumps False pl\<rparr>]\<rparr>)"
proof -
  from assms(3) log_line_of_encodes [of "\<lparr>ts = now, sha = sha256 (dumps True pl), source = src,
      payload = dumps False pl\<rparr>" b]
  obtain b1 b2 b3 where "encode (sha256 (dumps True pl)) = Inr b1" "encode src = Inr b2"
    "encode (dumps False pl) = Inr b3"
    by (auto simp: record_line_eq)
  with assms show ?thesis
    by (simp add: Logger_append_def fingerprint_eq gzip_write_def sqlite_insert_def
        bind_int_def bind_text_def)
qed


section \<open>Evaluation on concrete inputs\<close>

lemmas text_eval = lit_def encode_def record_line_def encode_basestring_def escape_char_def
  escape_dct_def int_repr_def is_surrogate_def digits.simps utf8_char_def u_escape_def hex4_def
  hex_digit_def


lemma Logger_append_count:
  assumes "Logger_append sha256 now env src pl st = (res, st')"
  shows "stats_count st' = stats_count st + (if res = Inr () then 1 else 0)"
  using assms
  by (auto simp: Logger_append_def fingerprint_eq stats_count_def
      split: sum.splits dest!: sqlite_insert_Inr)

lemma run_appends_count:
  "stats_count (snd (run_appends sha256 cs st)) =
     stats_count st + length (filter (\<lambda>r. r = Inr ()) (fst (run_appends sha256 cs st)))"
proof (induction cs arbitrary: st)
  case Nil
  show ?case by simp
next
  case (Cons c cs)
  obtain res st' where a: "Logger_append sha256 (c_now c) (c_env c) (c_source c) (c_payload c) st = (res, st')"
    by (cases "Logger_append sha256 (c_now c) (c_env c) (c_source c) (c_payload c) st")
  obtain rs st'' where r: "run_appends sha256 cs st' = (rs, st'')"
    by (cases "run_appends sha256 cs st'")
  from Cons.IH [of st'] r
  have "stats_count st'' = stats_count st' + length (filter (\<lambda>r. r = Inr ()) rs)"
    by simp
  with Logger_append_count [OF a] a r show ?case by simp
qed

lemmas append_eval = Logger_append_def fingerprint_eq gzip_write_def sqlite_insert_def
  bind_int_def bind_text_def no_faults_def Logger_init_def


lemma escape_char_False_set: "c \<in> set (escape_char False x) \<Longrightarrow> c < 128 \<or> c = x"
  by (auto simp: escape_char_def escape_dct_def u_escape_def hex4_def hex_digit_def
      split: option.splits if_splits)

lemma encode_basestring_False_set:
  "c \<in> set (encode_basestring False s) \<Longrightarrow> c < 128 \<or> c \<in> set s"
  by (auto simp: encode_basestring_def dest: escape_char_False_set)

lemma surrogate_not_ascii: "is_surrogate c \<Longrightarrow> \<not> c < 128"
  by (simp add: is_surrogate_def)

lemma log_line_of_encodable:
  assumes "\<not> list_ex is_surrogate (sha r)" and "\<not> list_ex is_surrogate (source r)"
    and "\<not> list_ex is_surrogate (payload r)"
  shows "encode (log_line_of r) = Inr (concat (map utf8_char (log_line_of r)))"
proof -
  have "\<not> is_surrogate c" if "c \<in> set (log_line_of r)" for c
  proof -
    from that have "c < 128 \<or> c \<in> set (sha r) \<or> c \<in> set (source r) \<or> c \<in> set (payload r)"
      by (auto simp: log_line_of_def dest!: encode_basestring_False_set int_repr_ascii)
        (auto simp: lit_def)
    with assms show ?thesis
      by (auto simp: list_ex_iff dest: surrogate_not_ascii)
  qed
  then show ?thesis
    by (auto simp: encode_def list_ex_iff)
qed

lemma is_hexdigest_no_surrogate: "is_hexdigest h \<Longrightarrow> \<not> list_ex is_surrogate h"
  by (auto simp: is_hexdigest_def list_ex_iff list_all_iff is_surrogate_def)

lemma loads_example:
  \<open>loads pf (lit ''{"a": 1, "b": [1, 2, 3]}'')
     = Inr (PDict [(lit ''a'', PInt 1), (lit ''b'', PList [PInt 1, PInt 2, PInt 3])])\<close>
  by code_simp






lemma decode_rows_Inr:
  "decode_rows pf rows = Inr es \<Longrightarrow> list_all2 (entry_of_row pf) es rows"
proof (induction rows arbitrary: es)
  case Nil
  then show ?case by simp
next
  case (Cons r rows)
  then show ?case
    by (auto simp: entry_of_row_def split: sum.splits)
qed

lemma decode_rows_decodable:
  "list_all (decodable pf) rows \<Longrightarrow> \<exists>es. decode_rows pf rows = Inr es"
  by (induction rows) (auto simp: decodable_def split: sum.splits)

lemma order_by_ts_desc_sorted: "sorted_wrt (\<lambda>a b. ts b \<le> ts a) (order_by_ts_desc rows)"
proof -
  have "sorted (map (\<lambda>r. - ts r) (sort_key (\<lambda>r. - ts r) rows))"
    by (rule sorted_sort_key)
  then show ?thesis
    by (simp add: order_by_ts_desc_def sorted_map)
qed

lemma order_by_ts_desc_stable:
  "filter (\<lambda>r. ts r = t) (order_by_ts_desc rows) = filter (\<lambda>r. ts r = t) rows"
  using sort_key_stable [of "\<lambda>r. - ts r" "- t" rows]
  by (simp add: order_by_ts_desc_def)

lemma sql_limit_sorted: "sorted_wrt P xs \<Longrightarrow> sorted_wrt P (sql_limit n xs)"
  by (simp add: sql_limit_def sorted_wrt_take)

lemma sql_limit_set: "set (sql_limit n xs) \<subseteq> set xs"
  by (auto simp: sql_limit_def dest: in_set_takeD)

lemma entries_sorted:
  assumes "list_all2 (entry_of_row pf) es rows" and "sorted_wrt (\<lambda>a b. ts b \<le> ts a) rows"
  shows "sorted_wrt (\<lambda>a b. e_ts b \<le> e_ts a) es"
proof -
  from assms(1) have "map e_ts es = map ts rows"
    by (induction rule: list_all2_induct) (auto simp: entry_of_row_def)
  moreover from assms(2) have "sorted_wrt (\<lambda>a b. b \<le> a) (map ts rows)"
    by (simp add: sorted_wrt_map)
  ultimately have "sorted_wrt (\<lambda>a b. b \<le> a) (map e_ts es)" by simp
  then show ?thesis by (simp add: sorted_wrt_map)
qed

lemma bind_int_Inr: "bind_int i = Inr k \<Longrightarrow> k = i \<and> - (2 ^ 63) \<le> i \<and> i < 2 ^ 63"
  by (auto simp: bind_int_def split: if_splits)


lemma Logger_tail_rows:
  assumes "- (2 ^ 63) \<le> n" and "n < 2 ^ 63" and "list_all (decodable pf) (audit_index st)"
  shows "\<exists>es. Logger_tail pf n st = Inr es \<and> list_all2 (entry_of_row pf) es (tail_rows n st)"
proof -
  have "list_all (decodable pf) (tail_rows n st)"
    using assms(3) sql_limit_set [of n "order_by_ts_desc (audit_index st)"]
    by (auto simp: tail_rows_def list_all_iff order_by_ts_desc_def)
  then obtain es where "decode_rows pf (tail_rows n st) = Inr es"
    using decode_rows_decodable by blast
  with assms(1,2) decode_rows_Inr [of pf "tail_rows n st" es] show ?thesis
    by (simp add: Logger_tail_def bind_int_def)
qed

lemma zero_digest_append:
  assumes "\<not> list_ex is_surrogate src" and "\<not> list_ex is_surrogate (dumps False pl)"
    and "- (2 ^ 63) \<le> now" and "now < 2 ^ 63"
  shows "Logger_append zero_digest now no_faults src pl st =
           (Inr (), st\<lparr>log_lines := log_lines st @ [record_line now (replicate 64 48) src pl],
                        audit_index := audit_index st @
                          [\<lparr>ts = now, sha = replicate 64 48, source = src,
                            payload = dumps False pl\<rparr>]\<rparr>)"
proof -
  let ?r = "\<lparr>ts = now, sha = replicate 64 48, source = src, payload = dumps False pl\<rparr>"
  have "\<not> list_ex is_surrogate (sha ?r)"
    by (simp add: list_ex_iff is_surrogate_def)
  with assms(1,2) have "encode (log_line_of ?r) = Inr (concat (map utf8_char (log_line_of ?r)))"
    by (intro log_line_of_encodable) simp_all
  then have e: "encode (record_line now (zero_digest (dumps True pl)) src pl)
      = Inr (concat (map utf8_char (log_line_of ?r)))"
    by (simp add: record_line_eq zero_digest_def)
  show ?thesis
    using Logger_append_success [where env = no_faults and now = now and ?sha256.0 = zero_digest
        and pl = pl and src = src and st = st, OF _ _ e assms(3) assms(4)]
    by (simp add: no_faults_def zero_digest_def)
qed

lemma loads_msg_hello:
  \<open>loads pf (lit ''{"msg": "hello"}'') = Inr (PDict [(lit ''msg'', PStr (lit ''hello''))])\<close>
  by code_simp

lemma loads_msg_world:
  \<open>loads pf (lit ''{"msg": "world"}'') = Inr (PDict [(lit ''msg'', PStr (lit ''world''))])\<close>
  by code_simp

lemma loads_a1: \<open>loads pf (lit ''{"a": 1}'') = Inr (PDict [(lit ''a'', PInt 1)])\<close>
  by code_simp

lemma loads_b2: \<open>loads pf (lit ''{"b": 2}'') = Inr (PDict [(lit ''b'', PInt 2)])\<close>
  by code_simp

lemma two_appends_same_second:
  \<open>run_appends zero_digest
          [\<lparr>c_now = 1700000000, c_env = no_faults, c_source = lit ''svc1'',
             c_payload = PDict [(lit ''msg'', PStr (lit ''hello''))]\<rparr>,
           \<lparr>c_now = 1700000000, c_env = no_faults, c_source = lit ''svc2'',
             c_payload = PDict [(lit ''msg'', PStr (lit ''world''))]\<rparr>]
          Logger_init
    = ([Inr (), Inr ()],
       \<lparr>log_lines =
          [record_line 1700000000 (replicate 64 48) (lit ''svc1'')
             (PDict [(lit ''msg'', PStr (lit ''hello''))]),
           record_line 1700000000 (replicate 64 48) (lit ''svc2'')
             (PDict [(lit ''msg'', PStr (lit ''world''))])],
        audit_index =
          [\<lparr>ts = 1700000000, sha = replicate 64 48, source = lit ''svc1'',
             payload = lit ''{"msg": "hello"}''\<rparr>,
           \<lparr>ts = 1700000000, sha = replicate 64 48, source = lit ''svc2'',
             payload = lit ''{"msg": "world"}''\<rparr>]\<rparr>)\<close>
  by (simp add: zero_digest_append Logger_init_def lit_def encode_basestring_def escape_char_def
      escape_dct_def is_surrogate_def)

lemmas query_eval = Logger_tail_def Logger_search_def bind_int_def bind_text_def tail_rows_def
  search_rows_def order_by_ts_desc_def sql_limit_def sql_like_def c_string_def sql_lower_def
  sql_read_def pattern_too_long_def utf8_char_def encode_def is_surrogate_def

lemma two_appends_a_b:
  \<open>run_appends zero_digest
          [\<lparr>c_now = 1700000000, c_env = no_faults, c_source = lit ''svc1'',
             c_payload = PDict [(lit ''a'', PInt 1)]\<rparr>,
           \<lparr>c_now = 1700000005, c_env = no_faults, c_source = lit ''svc2'',
             c_payload = PDict [(lit ''b'', PInt 2)]\<rparr>]
          Logger_init
    = ([Inr (), Inr ()],
       \<lparr>log_lines =
          [record_line 1700000000 (replicate 64 48) (lit ''svc1'') (PDict [(lit ''a'', PInt 1)]),
           record_line 1700000005 (replicate 64 48) (lit ''svc2'') (PDict [(lit ''b'', PInt 2)])],
        audit_index =
          [\<lparr>ts = 1700000000, sha = replicate 64 48, source = lit ''svc1'',
             payload = lit ''{"a": 1}''\<rparr>,
           \<lparr>ts = 1700000005, sha = replicate 64 48, source = lit ''svc2'',
             payload = lit ''{"b": 2}''\<rparr>]\<rparr>)\<close>
  by (simp add: zero_digest_append Logger_init_def lit_def encode_basestring_def escape_char_def
      escape_dct_def is_surrogate_def int_repr_def digits.simps)

section \<open>\<^verbatim>\<open>json.loads\<close> reads what \<^verbatim>\<open>json.dumps\<close> writes\<close>

subsection \<open>Strings\<close>

lemma hex_val_hex_digit: "d < 16 \<Longrightarrow> hex_val (hex_digit d) = Some d"
  by (auto simp: hex_val_def hex_digit_def)

lemma decode_uXXXX_hex4:
  assumes "n < 32"
  shows "decode_uXXXX (hex4 n @ t) = Some (n, t)"
proof -
  from assms have "n div 4096 mod 16 = 0" "n div 256 mod 16 = 0" "n div 16 mod 16 = n div 16"
    by simp_all
  moreover have "n div 16 * 16 + n mod 16 = n"
    by simp
  ultimately show ?thesis
    by (simp add: hex4_def hex_val_hex_digit)
qed

lemma scan_unicode_control:
  assumes "c < 32"
  shows "scan_unicode (hex4 c @ t) = Inr (c, t)"
  using assms decode_uXXXX_hex4 [of c t] by (simp add: scan_unicode_def)

lemma scanstring_escape_char:
  "scanstring (escape_char False c @ t) = cons_char c (scanstring t)"
proof -
  consider "c = 92" | "c = 34" | "c = 8" | "c = 12" | "c = 10" | "c = 13" | "c = 9"
    | "c < 32" "c \<notin> {8, 12, 10, 13, 9}" | "32 \<le> c" "c \<noteq> 92" "c \<noteq> 34"
    by fastforce
  then show ?thesis
  proof cases
    case 8
    then have "escape_char False c = [92, 117] @ hex4 c"
      by (auto simp: escape_char_def escape_dct_def u_escape_def)
    with 8 show ?thesis
      by (simp add: scan_unicode_control)
  next
    case 9
    then have "escape_char False c = [c]"
      by (auto simp: escape_char_def escape_dct_def)
    with 9 show ?thesis by simp
  qed (simp_all add: escape_char_def escape_dct_def backslash_def)
qed

lemma scanstring_escaped:
  "scanstring (concat (map (escape_char False) s) @ 34 # rest) = Inr (s, rest)"
proof (induction s)
  case Nil
  show ?case by simp
next
  case (Cons c s)
  have "scanstring (concat (map (escape_char False) (c # s)) @ 34 # rest)
      = scanstring (escape_char False c @ (concat (map (escape_char False) s) @ 34 # rest))"
    by simp
  also have "\<dots> = cons_char c (scanstring (concat (map (escape_char False) s) @ 34 # rest))"
    by (rule scanstring_escape_char)
  also have "\<dots> = Inr (c # s, rest)"
    by (simp add: Cons.IH cons_char_def)
  finally show ?case .
qed

lemma scanstring_basestring:
  "scanstring (tl (encode_basestring False s) @ rest) = Inr (s, rest)"
  using scanstring_escaped [of s rest] by (simp add: encode_basestring_def)

subsection \<open>Integers\<close>

lemma digits_is_digit: "c \<in> set (digits n) \<Longrightarrow> is_digit c"
proof (induction n arbitrary: c rule: digits.induct)
  case (1 n)
  then show ?case
    by (subst (asm) (2) digits.simps) (auto simp: is_digit_def split: if_splits)
qed

lemma digits_hd: "0 < n \<Longrightarrow> hd (digits n) \<noteq> 48"
proof (induction n rule: digits.induct)
  case (1 n)
  show ?case
  proof (cases "n < 10")
    case True
    with "1.prems" show ?thesis by (subst digits.simps) simp
  next
    case False
    then have "0 < n div 10" by simp
    with "1.IH" False have "hd (digits (n div 10)) \<noteq> 48" by simp
    with False show ?thesis
      by (subst digits.simps) (simp add: digits_nonempty)
  qed
qed

lemma digits_val_snoc: "digits_val (ds @ [d]) = 10 * digits_val ds + (d - 48)"
  by (simp add: digits_val_def)

lemma digits_val_digits: "digits_val (digits n) = n"
proof (induction n rule: digits.induct)
  case (1 n)
  show ?case
  proof (cases "n < 10")
    case True
    then show ?thesis by (subst digits.simps) (simp add: digits_val_def)
  next
    case False
    with "1.IH" have "digits_val (digits (n div 10)) = n div 10" by simp
    with False show ?thesis
      by (subst digits.simps) (simp add: digits_val_snoc)
  qed
qed

lemma takeWhile_digits:
  assumes "rest = [] \<or> \<not> is_digit (hd rest)" and "\<forall>c \<in> set ds. is_digit c"
  shows "takeWhile is_digit (ds @ rest) = ds" and "dropWhile is_digit (ds @ rest) = rest"
  using assms by (induction ds) (cases rest; simp)+

lemma match_integer_span:
  assumes "rest = [] \<or> \<not> is_digit (hd rest)"
    and "\<forall>c \<in> set (d # ds). is_digit c" and "d \<noteq> 48 \<or> ds = []"
  shows "match_integer (d # ds @ rest) = Some (d # ds, rest)"
proof (cases "d = 48")
  case True
  with assms(3) show ?thesis by (simp add: match_integer_def)
next
  case False
  with assms(2) takeWhile_digits [OF assms(1), of ds] show ?thesis
    by (simp add: match_integer_def)
qed

lemma match_integer_digits:
  assumes "rest = [] \<or> \<not> is_digit (hd rest)"
  shows "match_integer (digits n @ rest) = Some (digits n, rest)"
proof -
  obtain d ds where d: "digits n = d # ds"
    using digits_nonempty [of n] by (cases "digits n") auto
  have "d \<noteq> 48 \<or> ds = []"
  proof (cases "n = 0")
    case True
    with d show ?thesis by (simp add: digits.simps)
  next
    case False
    with digits_hd [of n] d show ?thesis by simp
  qed
  moreover have "\<forall>c \<in> set (d # ds). is_digit c"
    using digits_is_digit [of _ n] d by auto
  ultimately show ?thesis
    using match_integer_span [OF assms, of d ds] d by simp
qed

lemma match_frac_none: "rest = [] \<or> hd rest \<noteq> 46 \<Longrightarrow> match_frac rest = ([], rest)"
  by (auto simp: match_frac_def split: list.splits)

lemma match_exp_none: "rest = [] \<or> (hd rest \<noteq> 101 \<and> hd rest \<noteq> 69) \<Longrightarrow> match_exp rest = ([], rest)"
  by (auto simp: match_exp_def split: list.splits)

lemma delimiter_facts:
  assumes "rest = [] \<or> hd rest \<in> {44, 93, 125}"
  shows "rest = [] \<or> \<not> is_digit (hd rest)" and "match_frac rest = ([], rest)"
    and "match_exp rest = ([], rest)"
proof -
  show "rest = [] \<or> \<not> is_digit (hd rest)"
    using assms by (auto simp: is_digit_def)
  show "match_frac rest = ([], rest)"
    using assms by (intro match_frac_none) auto
  show "match_exp rest = ([], rest)"
    using assms by (intro match_exp_none) auto
qed

lemma match_number_int_repr:
  assumes "rest = [] \<or> hd rest \<in> {44, 93, 125}" and "length (digits (nat \<bar>i\<bar>)) \<le> 4300"
  shows "match_number pf (int_repr i @ rest) = Inr (PInt i, rest)"
proof (cases "i < 0")
  case True
  have "match_integer (digits (nat (- i)) @ rest) = Some (digits (nat (- i)), rest)"
    by (rule match_integer_digits) (rule delimiter_facts [OF assms(1)])
  moreover from True assms(2) have "length (digits (nat (- i))) \<le> 4300" by (simp add: abs_if)
  ultimately show ?thesis
    using True delimiter_facts(2,3) [OF assms(1)]
    by (simp add: match_number_def int_repr_def digits_val_digits)
next
  case False
  obtain d ds where d: "digits (nat i) = d # ds"
    using digits_nonempty [of "nat i"] by (cases "digits (nat i)") auto
  then have "is_digit d" using digits_is_digit [of d "nat i"] by simp
  then have "d \<noteq> 45" by (auto simp: is_digit_def)
  moreover have "match_integer (digits (nat i) @ rest) = Some (digits (nat i), rest)"
    by (rule match_integer_digits) (rule delimiter_facts [OF assms(1)])
  moreover have "int (digits_val (d # ds)) = i"
    using digits_val_digits [of "nat i"] d False by simp
  moreover from False assms(2) d have "length (d # ds) \<le> 4300" by (simp add: abs_if)
  ultimately show ?thesis
    using False delimiter_facts(2,3) [OF assms(1)] d
    by (simp add: match_number_def int_repr_def)
qed

lemma int_repr_first:
  "\<exists>c cs. int_repr i = c # cs \<and> (is_digit c \<or> (c = 45 \<and> cs \<noteq> [] \<and> is_digit (hd cs)))"
proof -
  obtain d ds where d: "digits (nat \<bar>i\<bar>) = d # ds"
    using digits_nonempty [of "nat \<bar>i\<bar>"] by (cases "digits (nat \<bar>i\<bar>)") auto
  then have "is_digit d" using digits_is_digit [of d "nat \<bar>i\<bar>"] by simp
  with d show ?thesis
    by (cases "i < 0") (auto simp: int_repr_def abs_if)
qed

lemma starts_with_Cons: "starts_with (p # ps) (c # s) = (p = c \<and> starts_with ps s)"
  by (auto simp: starts_with_def)

lemma starts_with_Nil: "starts_with (p # ps) [] = False"
  by (simp add: starts_with_def)

lemma is_digit_not_letter:
  assumes "is_digit c"
  shows "c \<noteq> 34" "c \<noteq> 110" "c \<noteq> 116" "c \<noteq> 102" "c \<noteq> 78" "c \<noteq> 73" "c \<noteq> 45"
    "c \<noteq> 123" "c \<noteq> 91"
  using assms by (simp_all add: is_digit_def)

lemma scan_atom_digit:
  assumes "is_digit c"
  shows "scan_atom pf (c # s) = match_number pf (c # s)"
  using is_digit_not_letter [OF assms]
  by (simp add: scan_atom_def lit_def starts_with_Cons)

lemma scan_atom_minus_digit:
  assumes "is_digit d"
  shows "scan_atom pf (45 # d # s) = match_number pf (45 # d # s)"
  using is_digit_not_letter [OF assms]
  by (simp add: scan_atom_def lit_def starts_with_Cons)

lemma scan_atom_number:
  assumes "t = c # cs" and "is_digit c \<or> (c = 45 \<and> cs \<noteq> [] \<and> is_digit (hd cs))"
  shows "scan_atom pf (t @ rest) = match_number pf (t @ rest)"
proof (cases "is_digit c")
  case True
  with assms(1) show ?thesis by (simp add: scan_atom_digit)
next
  case False
  with assms(2) obtain d ds where "cs = d # ds" "c = 45" "is_digit d"
    by (cases cs) auto
  with assms(1) show ?thesis by (simp add: scan_atom_minus_digit)
qed

lemma scan_atom_int_repr:
  assumes "rest = [] \<or> hd rest \<in> {44, 93, 125}" and "length (digits (nat \<bar>i\<bar>)) \<le> 4300"
  shows "scan_atom pf (int_repr i @ rest) = Inr (PInt i, rest)"
proof -
  obtain c cs where c: "int_repr i = c # cs"
    "is_digit c \<or> (c = 45 \<and> cs \<noteq> [] \<and> is_digit (hd cs))"
    using int_repr_first [of i] by blast
  from scan_atom_number [OF c] match_number_int_repr [OF assms] show ?thesis by simp
qed

subsection \<open>Floats\<close>

lemma match_frac_digits:
  assumes "rest = [] \<or> \<not> is_digit (hd rest)" and "fs \<noteq> []" and "\<forall>c \<in> set fs. is_digit c"
  shows "match_frac (46 # fs @ rest) = (46 # fs, rest)"
proof -
  obtain f ft where f: "fs = f # ft" using assms(2) by (cases fs) auto
  with assms(3) have "is_digit f" by simp
  with takeWhile_digits [OF assms(1,3)] f show ?thesis
    by (simp add: match_frac_def)
qed

lemma match_exp_digits:
  assumes "rest = [] \<or> \<not> is_digit (hd rest)" and "es \<noteq> []" and "\<forall>c \<in> set es. is_digit c"
    and "sg = 43 \<or> sg = 45"
  shows "match_exp (101 # sg # es @ rest) = (101 # sg # es, rest)"
proof -
  obtain f ft where f: "es = f # ft" using assms(2) by (cases es) auto
  with assms(3) have "is_digit f" by simp
  moreover from assms(4) have "\<not> is_digit sg" by (auto simp: is_digit_def)
  ultimately show ?thesis
    using takeWhile_digits [OF assms(1,3)] f assms(4)
    by (simp add: match_exp_def)
qed

lemma frac_part_iff:
  "frac_part fr = (fr = [] \<or> (\<exists>fs. fr = 46 # fs \<and> fs \<noteq> [] \<and> (\<forall>c \<in> set fs. is_digit c)))"
  by (auto simp: frac_part_def list_all_iff split: list.splits)

lemma exp_part_iff:
  "exp_part ex = (ex = [] \<or> (\<exists>sg es. ex = 101 # sg # es \<and> (sg = 43 \<or> sg = 45) \<and> es \<noteq> []
     \<and> (\<forall>c \<in> set es. is_digit c)))"
  by (auto simp: exp_part_def list_all_iff split: list.splits)

lemma match_number_float:
  assumes rest: "rest = [] \<or> hd rest \<in> {44, 93, 125}"
    and ip: "\<forall>c \<in> set (d # ds). is_digit c" "d \<noteq> 48 \<or> ds = []"
    and fr: "frac_part fr" and ex: "exp_part ex" and ne: "fr \<noteq> [] \<or> ex \<noteq> []"
  shows "match_number pf ((if neg then [45] else []) @ (d # ds) @ fr @ ex @ rest)
         = Inr (PFloat (pf ((if neg then [45] else []) @ (d # ds) @ fr @ ex)), rest)"
proof -
  note dl = delimiter_facts [OF rest]
  have e0: "ex @ rest = [] \<or> \<not> is_digit (hd (ex @ rest))"
    using ex dl(1) by (auto simp: exp_part_iff is_digit_def)
  have e1: "match_exp (ex @ rest) = (ex, rest)"
  proof (cases "ex = []")
    case True
    with dl(3) show ?thesis by simp
  next
    case False
    with ex obtain sg es where "ex = 101 # sg # es" "sg = 43 \<or> sg = 45" "es \<noteq> []"
      "\<forall>c \<in> set es. is_digit c" by (auto simp: exp_part_iff)
    with match_exp_digits [OF dl(1), of es sg] show ?thesis by simp
  qed
  have f0: "fr @ ex @ rest = [] \<or> \<not> is_digit (hd (fr @ ex @ rest))"
    using fr e0 by (auto simp: frac_part_iff is_digit_def)
  have f1: "match_frac (fr @ ex @ rest) = (fr, ex @ rest)"
  proof (cases "fr = []")
    case True
    have "ex @ rest = [] \<or> hd (ex @ rest) \<noteq> 46"
      using ex rest by (auto simp: exp_part_iff)
    with True match_frac_none [of "ex @ rest"] show ?thesis by simp
  next
    case False
    with fr obtain fs where "fr = 46 # fs" "fs \<noteq> []" "\<forall>c \<in> set fs. is_digit c"
      by (auto simp: frac_part_iff)
    with match_frac_digits [OF e0, of fs] show ?thesis by simp
  qed
  have i1: "match_integer (d # ds @ fr @ ex @ rest) = Some (d # ds, fr @ ex @ rest)"
    by (rule match_integer_span [OF f0 ip])
  from ip(1) have "d \<noteq> 45" by (auto simp: is_digit_def)
  with i1 f1 e1 ne show ?thesis
    by (cases neg) (simp_all add: match_number_def)
qed

lemma exp_digits_shape: "exp_digits e \<noteq> [] \<and> (\<forall>c \<in> set (exp_digits e). is_digit c)"
  using digits_is_digit [of _ e] digits_nonempty [of e]
  by (auto simp: exp_digits_def is_digit_def)

lemma float_repr_shape:
  assumes "0 < m \<or> decpt = 1"
  shows "\<exists>d ds fr ex. float_repr neg m decpt = (if neg then [45] else []) @ (d # ds) @ fr @ ex
     \<and> (\<forall>c \<in> set (d # ds). is_digit c) \<and> (d \<noteq> 48 \<or> ds = []) \<and> frac_part fr \<and> exp_part ex
     \<and> (fr \<noteq> [] \<or> ex \<noteq> [])"
proof -
  obtain d0 dt where D: "digits m = d0 # dt"
    using digits_nonempty [of m] by (cases "digits m") auto
  have dig: "\<forall>c \<in> set (d0 # dt). is_digit c"
    using digits_is_digit [of _ m] D by auto
  have nz: "0 < m \<Longrightarrow> d0 \<noteq> 48" using digits_hd [of m] D by simp
  have z: "m = 0 \<Longrightarrow> dt = []" using D by (simp add: digits.simps)
  let ?sg = "if neg then [45] else []"
  let ?P = "\<lambda>d ds fr ex. float_repr neg m decpt = ?sg @ (d # ds) @ fr @ ex
     \<and> (\<forall>c \<in> set (d # ds). is_digit c) \<and> (d \<noteq> 48 \<or> ds = []) \<and> frac_part fr \<and> exp_part ex
     \<and> (fr \<noteq> [] \<or> ex \<noteq> [])"
  consider (A) "16 < decpt \<or> decpt \<le> - 4"
    | (B) "\<not> (16 < decpt \<or> decpt \<le> - 4)" "decpt \<le> 0"
    | (C) "\<not> (16 < decpt \<or> decpt \<le> - 4)" "\<not> decpt \<le> 0" "int (length (digits m)) \<le> decpt"
    | (E) "\<not> (16 < decpt \<or> decpt \<le> - 4)" "\<not> decpt \<le> 0" "\<not> int (length (digits m)) \<le> decpt"
    by blast
  then show ?thesis
  proof cases
    case A
    let ?fr = "if dt = [] then [] else 46 # dt"
    let ?ex = "[101, if decpt - 1 < 0 then 45 else 43] @ exp_digits (nat \<bar>decpt - 1\<bar>)"
    have "float_repr neg m decpt = ?sg @ [d0] @ ?fr @ ?ex"
      using A D by (cases dt) (simp_all add: float_repr_def)
    moreover have "frac_part ?fr" using dig by (simp add: frac_part_iff)
    moreover have "exp_part ?ex"
      using exp_digits_shape [of "nat \<bar>decpt - 1\<bar>"] by (simp add: exp_part_iff)
    moreover have "is_digit d0" using dig by simp
    ultimately have "?P d0 [] ?fr ?ex" by simp
    then show ?thesis by blast
  next
    case B
    let ?fr = "46 # replicate (nat (- decpt)) 48 @ digits m"
    have "float_repr neg m decpt = ?sg @ [48] @ ?fr @ []"
      using B by (simp add: float_repr_def)
    moreover have "frac_part ?fr"
      using dig D by (auto simp: frac_part_iff is_digit_def)
    moreover have "is_digit 48" by (simp add: is_digit_def)
    ultimately have "?P 48 [] ?fr []" by (simp add: exp_part_iff)
    then show ?thesis by blast
  next
    case C
    let ?ds = "dt @ replicate (nat decpt - length (digits m)) 48"
    have "float_repr neg m decpt = ?sg @ (d0 # ?ds) @ [46, 48] @ []"
      using C D by (simp add: float_repr_def)
    moreover have "frac_part [46, 48]" by (simp add: frac_part_iff is_digit_def)
    moreover have "\<forall>c \<in> set (d0 # ?ds). is_digit c" using dig by (auto simp: is_digit_def)
    moreover have "d0 \<noteq> 48 \<or> ?ds = []"
    proof (cases "m = 0")
      case True
      with assms have "decpt = 1" by simp
      with True z D show ?thesis by simp
    next
      case False
      with nz show ?thesis by simp
    qed
    ultimately have "?P d0 ?ds [46, 48] []" by (simp add: exp_part_iff)
    then show ?thesis by blast
  next
    case E
    then obtain k where k: "nat decpt = Suc k" by (cases "nat decpt") auto
    from E have lt: "nat decpt < length (digits m)" by linarith
    let ?fr = "46 # drop (nat decpt) (digits m)"
    have "float_repr neg m decpt = ?sg @ (d0 # take k dt) @ ?fr @ []"
      using E D k by (simp add: float_repr_def)
    moreover have "\<forall>c \<in> set (drop (nat decpt) (digits m)). is_digit c"
      using digits_is_digit [of _ m] by (blast dest: in_set_dropD)
    with lt have "frac_part ?fr" by (simp add: frac_part_iff)
    moreover have "\<forall>c \<in> set (d0 # take k dt). is_digit c"
      using dig by (auto dest: in_set_takeD)
    moreover have "d0 \<noteq> 48"
    proof (cases "m = 0")
      case True
      with z D lt k show ?thesis by simp
    next
      case False
      with nz show ?thesis by simp
    qed
    ultimately have "?P d0 (take k dt) ?fr []" by (simp add: exp_part_iff)
    then show ?thesis by blast
  qed
qed

lemma scan_atom_float_repr:
  assumes "rest = [] \<or> hd rest \<in> {44, 93, 125}" and "0 < m \<or> decpt = 1"
  shows "scan_atom pf (float_repr neg m decpt @ rest)
         = Inr (PFloat (pf (float_repr neg m decpt)), rest)"
proof -
  obtain d ds fr ex where s: "float_repr neg m decpt = (if neg then [45] else []) @ (d # ds) @ fr @ ex"
    "\<forall>c \<in> set (d # ds). is_digit c" "d \<noteq> 48 \<or> ds = []" "frac_part fr" "exp_part ex"
    "fr \<noteq> [] \<or> ex \<noteq> []"
    using float_repr_shape [OF assms(2), of neg] by blast
  from s(2) have d: "is_digit d" by simp
  have "scan_atom pf (float_repr neg m decpt @ rest) = match_number pf (float_repr neg m decpt @ rest)"
  proof (cases neg)
    case True
    with s(1) have "float_repr neg m decpt @ rest = 45 # d # (ds @ fr @ ex @ rest)" by simp
    with scan_atom_minus_digit [OF d] show ?thesis by simp
  next
    case False
    with s(1) have "float_repr neg m decpt @ rest = d # (ds @ fr @ ex @ rest)" by simp
    with scan_atom_digit [OF d] show ?thesis by simp
  qed
  also have "\<dots> = Inr (PFloat (pf (float_repr neg m decpt)), rest)"
    using match_number_float [OF assms(1) s(2-6), of pf neg] s(1) by simp
  finally show ?thesis .
qed

lemma scan_atom_float:
  assumes "rest = [] \<or> hd rest \<in> {44, 93, 125}" and "payload_ok (PFloat x)"
  shows "scan_atom pf (float_json x @ rest) = Inr (reparse pf (PFloat x), rest)"
proof (cases x)
  case FNaN
  then show ?thesis
    by (simp add: float_json_def scan_atom_def lit_def starts_with_Cons starts_with_def)
next
  case (FInf neg)
  then show ?thesis
    by (simp add: float_json_def scan_atom_def lit_def starts_with_Cons starts_with_def)
next
  case (FNum neg m decpt)
  with assms scan_atom_float_repr [of rest m decpt pf neg] show ?thesis
    by (simp add: float_json_def)
qed

lemma float_json_first:
  "\<exists>c cs. float_json x = c # cs \<and> \<not> is_ws c \<and> c \<noteq> 93 \<and> c \<noteq> 125 \<and> c \<noteq> 44 \<and> c \<noteq> 123
     \<and> c \<noteq> 91 \<and> c \<noteq> 34"
proof (cases x)
  case (FNum neg m decpt)
  obtain d0 dt where D: "digits m = d0 # dt"
    using digits_nonempty [of m] by (cases "digits m") auto
  then have "is_digit d0" using digits_is_digit [of d0 m] by simp
  then have d: "\<not> is_ws d0 \<and> d0 \<noteq> 93 \<and> d0 \<noteq> 125 \<and> d0 \<noteq> 44 \<and> d0 \<noteq> 123 \<and> d0 \<noteq> 91 \<and> d0 \<noteq> 34"
    by (auto simp: is_digit_def is_ws_def)
  show ?thesis
  proof (cases neg)
    case True
    with FNum show ?thesis by (simp add: float_json_def float_repr_def is_ws_def)
  next
    case False
    with FNum D d show ?thesis
      by (cases "nat decpt") (auto simp: float_json_def float_repr_def is_ws_def is_digit_def)
  qed
qed (simp_all add: float_json_def lit_def is_ws_def)

subsection \<open>Lists, dicts and the round trip\<close>

lemma dict_set_fresh: "k \<notin> fst ` set d \<Longrightarrow> dict_set k v d = d @ [(k, v)]"
  by (induction d) auto

lemma foldl_dict_set:
  "distinct (map fst (acc @ kvs)) \<Longrightarrow>
     foldl (\<lambda>d (k, v). dict_set k v d) acc kvs = acc @ kvs"
proof (induction kvs arbitrary: acc)
  case Nil
  show ?case by simp
next
  case (Cons kv kvs)
  obtain k v where kv: "kv = (k, v)" by (cases kv)
  from Cons.prems kv have "k \<notin> fst ` set acc" by auto
  then have "dict_set k v acc = acc @ [(k, v)]" by (rule dict_set_fresh)
  moreover from Cons.prems kv have "distinct (map fst ((acc @ [(k, v)]) @ kvs))" by simp
  ultimately show ?case
    using Cons.IH [of "acc @ [(k, v)]"] kv by simp
qed

lemma dict_of_pairs_distinct: "distinct (map fst kvs) \<Longrightarrow> dict_of_pairs kvs = kvs"
  using foldl_dict_set [of "[]" kvs] by (simp add: dict_of_pairs_def)

lemma join_Cons: "ys \<noteq> [] \<Longrightarrow> join sep (y # ys) = y @ sep @ join sep ys"
  by (cases ys) simp_all

lemma encode_basestring_Cons: "encode_basestring ea s = 34 # tl (encode_basestring ea s)"
  by (simp add: encode_basestring_def)

lemma dumps_first:
  "\<exists>c cs. dumps False v = c # cs \<and> \<not> is_ws c \<and> c \<noteq> 93 \<and> c \<noteq> 125 \<and> c \<noteq> 44"
proof (cases v)
  case (PInt i)
  obtain c cs where "int_repr i = c # cs" "is_digit c \<or> c = 45"
    using int_repr_first [of i] by blast
  with PInt show ?thesis by (auto simp: is_ws_def is_digit_def)
next
  case (PFloat x)
  with float_json_first [of x] show ?thesis by auto
qed (auto simp: lit_def is_ws_def encode_basestring_def)

lemma skip_ws_dumps: "skip_ws (dumps False v @ rest) = dumps False v @ rest"
  using dumps_first [of v] by auto

lemma join_dumps_first:
  assumes "xs \<noteq> []"
  shows "\<exists>c cs. join sep (map (dumps False) xs) = c # cs
           \<and> \<not> is_ws c \<and> c \<noteq> 93 \<and> c \<noteq> 125 \<and> c \<noteq> 44"
proof -
  from assms obtain x xs' where x: "xs = x # xs'" by (cases xs) auto
  obtain c cs where "dumps False x = c # cs" "\<not> is_ws c \<and> c \<noteq> 93 \<and> c \<noteq> 125 \<and> c \<noteq> 44"
    using dumps_first [of x] by blast
  with x show ?thesis by (cases xs') auto
qed

lemma scan_once_atom:
  assumes "dumps False v = c # cs" and "c \<noteq> 123" and "c \<noteq> 91"
  shows "scan_once pf (Suc f) (dumps False v @ rest) = scan_atom pf (dumps False v @ rest)"
  using assms by (simp add: starts_with_def)

lemma scan_atom_null: "scan_atom pf (lit ''null'' @ rest) = Inr (PNone, rest)"
  by (simp add: scan_atom_def lit_def starts_with_def)

lemma scan_atom_true: "scan_atom pf (lit ''true'' @ rest) = Inr (PBool True, rest)"
  by (simp add: scan_atom_def lit_def starts_with_def)

lemma scan_atom_false: "scan_atom pf (lit ''false'' @ rest) = Inr (PBool False, rest)"
  by (simp add: scan_atom_def lit_def starts_with_def)

lemma scan_atom_string:
  "scan_atom pf (encode_basestring False s @ rest) = Inr (PStr s, rest)"
proof -
  have "scan_atom pf (34 # tl (encode_basestring False s) @ rest) = Inr (PStr s, rest)"
    by (simp add: scan_atom_def scanstring_basestring)
  then show ?thesis
    using encode_basestring_Cons [of False s] by (metis append_Cons)
qed

lemma scan_once_PNone: "scan_once pf (Suc f) (dumps False PNone @ rest) = Inr (PNone, rest)"
  using scan_atom_null [of pf rest] by (simp add: starts_with_def lit_def)

lemma scan_once_PBool: "scan_once pf (Suc f) (dumps False (PBool b) @ rest) = Inr (PBool b, rest)"
  using scan_atom_true [of pf rest] scan_atom_false [of pf rest]
  by (cases b) (simp_all add: starts_with_def lit_def)

lemma scan_once_PStr: "scan_once pf (Suc f) (dumps False (PStr s) @ rest) = Inr (PStr s, rest)"
proof -
  have "scan_once pf (Suc f) (dumps False (PStr s) @ rest) = scan_atom pf (dumps False (PStr s) @ rest)"
    by (rule scan_once_atom [where c = 34]) (simp_all add: encode_basestring_def)
  then show ?thesis by (simp add: scan_atom_string)
qed

lemma scan_once_PInt:
  assumes "rest = [] \<or> hd rest \<in> {44, 93, 125}" and "length (digits (nat \<bar>i\<bar>)) \<le> 4300"
  shows "scan_once pf (Suc f) (dumps False (PInt i) @ rest) = Inr (PInt i, rest)"
proof -
  obtain c cs where c: "int_repr i = c # cs" "is_digit c \<or> c = 45"
    using int_repr_first [of i] by blast
  then have "c \<noteq> 123" "c \<noteq> 91" by (auto simp: is_digit_def)
  with c(1) have "scan_once pf (Suc f) (dumps False (PInt i) @ rest)
      = scan_atom pf (dumps False (PInt i) @ rest)"
    by (intro scan_once_atom [where c = c]) simp_all
  with assms show ?thesis by (simp add: scan_atom_int_repr)
qed

lemma scan_once_PFloat:
  assumes "rest = [] \<or> hd rest \<in> {44, 93, 125}" and "payload_ok (PFloat x)"
  shows "scan_once pf (Suc f) (dumps False (PFloat x) @ rest) = Inr (reparse pf (PFloat x), rest)"
proof -
  obtain c cs where c: "float_json x = c # cs" "c \<noteq> 123" "c \<noteq> 91"
    using float_json_first [of x] by blast
  then have "scan_once pf (Suc f) (dumps False (PFloat x) @ rest)
      = scan_atom pf (dumps False (PFloat x) @ rest)"
    by (intro scan_once_atom [where c = c]) simp_all
  with scan_atom_float [OF assms, of pf] show ?thesis by simp
qed

lemma next_delim_close:
  assumes "\<not> is_ws c"
  shows "next_delim c (c # rest) = Close rest"
  using assms by (simp add: next_delim_def)

lemma next_delim_more:
  assumes "t = c # cs" and "\<not> is_ws c" and "close \<noteq> 44"
  shows "next_delim close (44 # 32 # t) = More t"
  using assms by (simp add: next_delim_def is_ws_def)

lemma parse_items_join:
  assumes "\<And>x f rest. x \<in> set xs \<Longrightarrow> length (dumps False x) \<le> f \<Longrightarrow>
             rest = [] \<or> hd rest \<in> {44, 93, 125} \<Longrightarrow>
             scan_once pf f (dumps False x @ rest) = Inr (reparse pf x, rest)"
    and "xs \<noteq> []" and "length (join [44, 32] (map (dumps False) xs)) < f"
  shows "parse_items pf f (join [44, 32] (map (dumps False) xs) @ 93 # rest)
         = Inr (map (reparse pf) xs, rest)"
  using assms
proof (induction xs arbitrary: f)
  case Nil
  then show ?case by simp
next
  case (Cons x xs)
  from Cons.prems(3) obtain g where g: "f = Suc g" by (cases f) auto
  show ?case
  proof (cases "xs = []")
    case True
    with Cons.prems(3) g have "length (dumps False x) \<le> g" by simp
    then have "scan_once pf g (dumps False x @ 93 # rest) = Inr (reparse pf x, 93 # rest)"
      by (intro Cons.prems(1)) simp_all
    with True g show ?thesis
      by (simp add: next_delim_close is_ws_def)
  next
    case False
    let ?J = "join [44, 32] (map (dumps False) xs)"
    from False have j: "join [44, 32] (map (dumps False) (x # xs)) = dumps False x @ [44, 32] @ ?J"
      by (simp add: join_Cons)
    with Cons.prems(3) g have l: "length (dumps False x) \<le> g" "length ?J < g" by simp_all
    have s: "scan_once pf g (dumps False x @ 44 # 32 # ?J @ 93 # rest)
        = Inr (reparse pf x, 44 # 32 # ?J @ 93 # rest)"
      using l(1) by (intro Cons.prems(1)) simp_all
    obtain c cs where c: "?J = c # cs" "\<not> is_ws c"
      using join_dumps_first [OF False, of "[44, 32]"] by blast
    then have n: "next_delim 93 (44 # 32 # ?J @ 93 # rest) = More (?J @ 93 # rest)"
      by (intro next_delim_more [where c = c and cs = "cs @ 93 # rest"]) simp_all
    have "parse_items pf g (?J @ 93 # rest) = Inr (map (reparse pf) xs, rest)"
      using False l(2) Cons.prems(1) by (intro Cons.IH) auto
    with s n g j show ?thesis
      by (simp add: with_value_def)
  qed
qed

lemma parse_key_member:
  assumes "t = c # cs" and "\<not> is_ws c"
  shows "parse_key (encode_basestring False k @ 58 # 32 # t) = Inr (k, t)"
proof -
  have "parse_key (34 # tl (encode_basestring False k) @ 58 # 32 # t) = Inr (k, t)"
    using assms by (simp add: parse_key_def scanstring_basestring is_ws_def)
  then show ?thesis
    using encode_basestring_Cons [of False k] by (metis append_Cons)
qed

lemma join_members_first:
  assumes "kvs \<noteq> []"
  shows "\<exists>cs. join sep (map (\<lambda>(k, v). encode_basestring False k @ [58, 32] @ dumps False v) kvs)
           = 34 # cs"
proof -
  from assms obtain k v kvs' where "kvs = (k, v) # kvs'" by (cases kvs) auto
  then show ?thesis
    by (cases kvs') (auto simp: encode_basestring_def)
qed

lemma parse_members_join:
  assumes "\<And>k v f rest. (k, v) \<in> set kvs \<Longrightarrow> length (dumps False v) \<le> f \<Longrightarrow>
             rest = [] \<or> hd rest \<in> {44, 93, 125} \<Longrightarrow>
             scan_once pf f (dumps False v @ rest) = Inr (reparse pf v, rest)"
    and "kvs \<noteq> []"
    and "length (join [44, 32]
            (map (\<lambda>(k, v). encode_basestring False k @ [58, 32] @ dumps False v) kvs)) < f"
  shows "parse_members pf f
           (join [44, 32] (map (\<lambda>(k, v). encode_basestring False k @ [58, 32] @ dumps False v) kvs)
            @ 125 # rest) = Inr (map (\<lambda>kv. (fst kv, reparse pf (snd kv))) kvs, rest)"
  using assms
proof (induction kvs arbitrary: f)
  case Nil
  then show ?case by simp
next
  case (Cons kv kvs)
  let ?M = "\<lambda>(k, v). encode_basestring False k @ [58, 32] @ dumps False v"
  obtain k v where kv: "kv = (k, v)" by (cases kv)
  from Cons.prems(3) obtain g where g: "f = Suc g" by (cases f) auto
  obtain c cs where c: "dumps False v = c # cs" "\<not> is_ws c"
    using dumps_first [of v] by blast
  show ?case
  proof (cases "kvs = []")
    case True
    with Cons.prems(3) g kv have "length (dumps False v) \<le> g" by simp
    then have "scan_once pf g (dumps False v @ 125 # rest) = Inr (reparse pf v, 125 # rest)"
      using kv by (intro Cons.prems(1) [of k]) simp_all
    moreover have "parse_key (encode_basestring False k @ 58 # 32 # dumps False v @ 125 # rest)
        = Inr (k, dumps False v @ 125 # rest)"
      using c by (intro parse_key_member [where c = c and cs = "cs @ 125 # rest"]) simp_all
    ultimately show ?thesis
      using True g kv by (simp add: next_delim_close is_ws_def)
  next
    case False
    let ?J = "join [44, 32] (map ?M kvs)"
    from False kv have j: "join [44, 32] (map ?M (kv # kvs))
        = encode_basestring False k @ 58 # 32 # dumps False v @ 44 # 32 # ?J"
      by (simp add: join_Cons)
    with Cons.prems(3) g have l: "length (dumps False v) \<le> g" "length ?J < g" by simp_all
    have s: "scan_once pf g (dumps False v @ 44 # 32 # ?J @ 125 # rest)
        = Inr (reparse pf v, 44 # 32 # ?J @ 125 # rest)"
      using l(1) kv by (intro Cons.prems(1) [of k]) simp_all
    have p: "parse_key (encode_basestring False k @ 58 # 32 # dumps False v
          @ 44 # 32 # ?J @ 125 # rest)
        = Inr (k, dumps False v @ 44 # 32 # ?J @ 125 # rest)"
      using c by (intro parse_key_member [where c = c and cs = "cs @ 44 # 32 # ?J @ 125 # rest"])
        simp_all
    obtain cs' where c': "?J = 34 # cs'"
      using join_members_first [OF False, of "[44, 32]"] by blast
    then have n: "next_delim 125 (44 # 32 # ?J @ 125 # rest) = More (?J @ 125 # rest)"
      by (intro next_delim_more [where c = 34 and cs = "cs' @ 125 # rest"])
        (simp_all add: is_ws_def)
    have "parse_members pf g (?J @ 125 # rest)
        = Inr (map (\<lambda>kv. (fst kv, reparse pf (snd kv))) kvs, rest)"
      using False l(2) Cons.prems(1) by (intro Cons.IH) auto
    with s p n g j kv show ?thesis
      by (simp add: with_value_def)
  qed
qed

lemma scan_once_dumps:
  assumes "payload_ok v" and "length (dumps False v) \<le> f"
    and "rest = [] \<or> hd rest \<in> {44, 93, 125}"
  shows "scan_once pf f (dumps False v @ rest) = Inr (reparse pf v, rest)"
  using assms
proof (induction v arbitrary: f rest)
  case PNone
  then obtain g where "f = Suc g" by (cases f) (auto simp: lit_def)
  then show ?case by (simp only: scan_once_PNone reparse.simps)
next
  case (PBool b)
  then obtain g where "f = Suc g" by (cases f) (auto simp: lit_def split: if_splits)
  then show ?case by (simp only: scan_once_PBool reparse.simps)
next
  case (PInt i)
  obtain c cs where "int_repr i = c # cs" using int_repr_first [of i] by blast
  with PInt.prems(2) obtain g where "f = Suc g" by (cases f) auto
  with PInt.prems(1,3) scan_once_PInt [of rest i pf g] show ?case by simp
next
  case (PFloat x)
  obtain c cs where "float_json x = c # cs" using float_json_first [of x] by blast
  with PFloat.prems(2) obtain g where "f = Suc g" by (cases f) auto
  with PFloat.prems(1,3) scan_once_PFloat [of rest x pf g] show ?case by simp
next
  case (PStr s)
  then obtain g where "f = Suc g" by (cases f) (auto simp: encode_basestring_def)
  then show ?case by (simp only: scan_once_PStr reparse.simps)
next
  case (PList xs)
  from PList.prems(2) obtain g where g: "f = Suc g" by (cases f) auto
  show ?case
  proof (cases "xs = []")
    case True
    with g show ?thesis by (simp add: starts_with_def is_ws_def)
  next
    case False
    let ?J = "join [44, 32] (map (dumps False) xs)"
    obtain c cs where c: "?J = c # cs" "\<not> is_ws c" "c \<noteq> 93"
      using join_dumps_first [OF False, of "[44, 32]"] by blast
    from PList.prems(2) g have l: "length ?J < g" by simp
    have "parse_items pf g (?J @ 93 # rest) = Inr (map (reparse pf) xs, rest)"
    proof (rule parse_items_join [OF _ False l])
      fix x f' and rest' :: pystr
      assume "x \<in> set xs" "length (dumps False x) \<le> f'"
        "rest' = [] \<or> hd rest' \<in> {44, 93, 125}"
      with PList.prems(1) show "scan_once pf f' (dumps False x @ rest') = Inr (reparse pf x, rest')"
        by (intro PList.IH) (auto simp: list_all_iff)
    qed
    with c g show ?thesis
      by (simp add: starts_with_def with_value_def)
  qed
next
  case (PDict kvs)
  let ?M = "\<lambda>(k, v). encode_basestring False k @ [58, 32] @ dumps False v"
  from PDict.prems(2) obtain g where g: "f = Suc g" by (cases f) auto
  show ?case
  proof (cases "kvs = []")
    case True
    with g show ?thesis by (simp add: starts_with_def is_ws_def)
  next
    case False
    let ?J = "join [44, 32] (map ?M kvs)"
    obtain cs where c: "?J = 34 # cs"
      using join_members_first [OF False, of "[44, 32]"] by blast
    from PDict.prems(2) g have l: "length ?J < g" by simp
    have "parse_members pf g (?J @ 125 # rest)
        = Inr (map (\<lambda>kv. (fst kv, reparse pf (snd kv))) kvs, rest)"
    proof (rule parse_members_join [OF _ False l])
      fix k v f' and rest' :: pystr
      assume "(k, v) \<in> set kvs" "length (dumps False v) \<le> f'"
        "rest' = [] \<or> hd rest' \<in> {44, 93, 125}"
      with PDict.prems(1)
      show "scan_once pf f' (dumps False v @ rest') = Inr (reparse pf v, rest')"
        by (intro PDict.IH [of "(k, v)"]) (auto simp: list_all_iff)
    qed
    moreover from PDict.prems(1)
    have "dict_of_pairs (map (\<lambda>kv. (fst kv, reparse pf (snd kv))) kvs)
        = map (\<lambda>kv. (fst kv, reparse pf (snd kv))) kvs"
      by (intro dict_of_pairs_distinct) (simp add: comp_def)
    ultimately show ?thesis
      using c g by (simp add: starts_with_def with_value_def is_ws_def)
  qed
qed

lemma loads_dumps: "payload_ok v \<Longrightarrow> loads pf (dumps False v) = Inr (reparse pf v)"
  using scan_once_dumps [of v "2 * length (dumps False v) + 2" "[]" pf] skip_ws_dumps [of v "[]"]
  by (simp add: loads_def)

section \<open>The parser has fuel enough\<close>

lemma cons_char_Inr: "cons_char c r = Inr (s, rest) \<Longrightarrow> \<exists>s'. r = Inr (s', rest)"
  by (auto simp: cons_char_def split: sum.splits)

lemma cons_char_fuel: "r \<noteq> Inl OutOfFuel \<Longrightarrow> cons_char c r \<noteq> Inl OutOfFuel"
  by (auto simp: cons_char_def split: sum.splits)

lemma scan_unicode_fuel: "scan_unicode s \<noteq> Inl OutOfFuel"
  by (auto simp: scan_unicode_def split: option.splits)

lemma scanstring_step:
  assumes "scanstring (c # cs) = Inr (str, rest)"
  shows "(c = 34 \<and> rest = cs)
         \<or> (\<exists>t str'. length t \<le> length cs \<and> scanstring t = Inr (str', rest))"
proof (cases "c = 34")
  case True
  with assms show ?thesis by simp
next
  case c34: False
  show ?thesis
  proof (cases "c = 92")
    case True
    with c34 assms obtain e es where cs: "cs = e # es" by (cases cs) auto
    show ?thesis
    proof (cases "e = 117")
      case e: True
      from assms c34 True cs e
      have "(case scan_unicode es of Inl err \<Rightarrow> Inl err
              | Inr (uni, rest') \<Rightarrow> cons_char uni (scanstring rest')) = Inr (str, rest)"
        by simp
      then obtain uni rest' where u: "scan_unicode es = Inr (uni, rest')"
        and r: "cons_char uni (scanstring rest') = Inr (str, rest)"
        by (cases "scan_unicode es") auto
      from r obtain s' where "scanstring rest' = Inr (s', rest)"
        using cons_char_Inr by blast
      moreover from scan_unicode_length [OF u] cs have "length rest' \<le> length cs" by simp
      ultimately show ?thesis by blast
    next
      case e: False
      from assms c34 True cs e
      have "(case backslash e of None \<Rightarrow> Inl JSONDecodeError
              | Some ch \<Rightarrow> cons_char ch (scanstring es)) = Inr (str, rest)"
        by simp
      then obtain ch where r: "cons_char ch (scanstring es) = Inr (str, rest)"
        by (cases "backslash e") auto
      from r obtain s' where "scanstring es = Inr (s', rest)"
        using cons_char_Inr by blast
      with cs show ?thesis by auto
    qed
  next
    case False
    with c34 assms have "cons_char c (scanstring cs) = Inr (str, rest)"
      by (simp split: if_splits)
    then obtain s' where "scanstring cs = Inr (s', rest)"
      using cons_char_Inr by blast
    then show ?thesis by auto
  qed
qed

lemma scanstring_length: "scanstring s = Inr (str, rest) \<Longrightarrow> length rest < length s"
proof (induction "length s" arbitrary: s str rule: less_induct)
  case less
  from less.prems obtain c cs where s: "s = c # cs" by (cases s) auto
  from scanstring_step [OF less.prems [unfolded s]] show ?case
  proof
    assume "c = 34 \<and> rest = cs"
    with s show ?thesis by simp
  next
    assume "\<exists>t str'. length t \<le> length cs \<and> scanstring t = Inr (str', rest)"
    then obtain t str' where t: "length t \<le> length cs" "scanstring t = Inr (str', rest)"
      by blast
    with s have "length t < length s" by simp
    from less.hyps [OF this t(2)] t(1) s show ?thesis by simp
  qed
qed

lemma cons_char_Inl: "cons_char c r = Inl e \<Longrightarrow> r = Inl e"
  by (auto simp: cons_char_def split: sum.splits)

lemma scanstring_fuel_step:
  assumes "scanstring (c # cs) = Inl OutOfFuel"
  shows "\<exists>t. length t \<le> length cs \<and> scanstring t = Inl OutOfFuel"
proof -
  have c34: "c \<noteq> 34" using assms by auto
  show ?thesis
  proof (cases "c = 92")
    case True
    with c34 assms obtain e es where cs: "cs = e # es" by (cases cs) auto
    show ?thesis
    proof (cases "e = 117")
      case e: True
      from assms c34 True cs e
      have "(case scan_unicode es of Inl err \<Rightarrow> Inl err
              | Inr (uni, rest') \<Rightarrow> cons_char uni (scanstring rest')) = Inl OutOfFuel"
        by simp
      then obtain uni rest' where u: "scan_unicode es = Inr (uni, rest')"
        and r: "cons_char uni (scanstring rest') = Inl OutOfFuel"
        using scan_unicode_fuel [of es] by (cases "scan_unicode es") auto
      from r have "scanstring rest' = Inl OutOfFuel" by (rule cons_char_Inl)
      moreover from scan_unicode_length [OF u] cs have "length rest' \<le> length cs" by simp
      ultimately show ?thesis by blast
    next
      case e: False
      from assms c34 True cs e
      have "(case backslash e of None \<Rightarrow> Inl JSONDecodeError
              | Some ch \<Rightarrow> cons_char ch (scanstring es)) = Inl OutOfFuel"
        by simp
      then obtain ch where r: "cons_char ch (scanstring es) = Inl OutOfFuel"
        by (cases "backslash e") auto
      from r have "scanstring es = Inl OutOfFuel" by (rule cons_char_Inl)
      moreover from cs have "length es \<le> length cs" by simp
      ultimately show ?thesis by blast
    qed
  next
    case False
    with c34 assms have "cons_char c (scanstring cs) = Inl OutOfFuel"
      by (simp split: if_splits)
    then have "scanstring cs = Inl OutOfFuel" by (rule cons_char_Inl)
    then show ?thesis by auto
  qed
qed

lemma scanstring_fuel: "scanstring s \<noteq> Inl OutOfFuel"
proof (induction "length s" arbitrary: s rule: less_induct)
  case less
  show ?case
  proof (cases s)
    case Nil
    then show ?thesis by simp
  next
    case (Cons c cs)
    show ?thesis
    proof
      assume "scanstring s = Inl OutOfFuel"
      with Cons obtain t where t: "length t \<le> length cs" "scanstring t = Inl OutOfFuel"
        using scanstring_fuel_step by blast
      with Cons have "length t < length s" by simp
      from less.hyps [OF this] t(2) show False by simp
    qed
  qed
qed

lemma skip_ws_length: "length (skip_ws s) \<le> length s"
  by (induction s) auto

lemma match_integer_length: "match_integer s = Some (ds, rest) \<Longrightarrow> length rest < length s"
proof -
  have "length (dropWhile P xs) \<le> length xs" for P and xs :: pystr
    by (induction xs) auto
  note d = this
  assume "match_integer s = Some (ds, rest)"
  then show ?thesis
    using d [of is_digit "tl s"]
    by (cases s) (auto simp: match_integer_def split: if_splits)
qed

lemma dropWhile_length: "length (dropWhile P xs) \<le> length xs"
  by (induction xs) auto

lemma match_frac_length: "match_frac s = (fr, rest) \<Longrightarrow> length rest \<le> length s"
  using dropWhile_length [of is_digit "tl s"]
  by (auto simp: match_frac_def split: list.splits if_splits)

lemma match_exp_length: "match_exp s = (ex, rest) \<Longrightarrow> length rest \<le> length s"
proof -
  assume a: "match_exp s = (ex, rest)"
  show ?thesis
  proof (cases s)
    case Nil
    with a show ?thesis by (simp add: match_exp_def)
  next
    case (Cons e t)
    show ?thesis
    proof (cases t)
      case Nil
      with a Cons show ?thesis by (simp add: match_exp_def)
    next
      case t: (Cons x r)
      from a Cons t have "rest = s \<or> rest = dropWhile is_digit (x # r) \<or> rest = dropWhile is_digit r"
        by (auto simp: match_exp_def split: if_splits)
      then show ?thesis
        using dropWhile_length [of is_digit "x # r"] dropWhile_length [of is_digit r] Cons t
        by auto
    qed
  qed
qed

lemma match_number_length: "match_number pf s = Inr (v, rest) \<Longrightarrow> length rest < length s"
proof -
  assume a: "match_number pf s = Inr (v, rest)"
  let ?body = "if (case s of c # _ \<Rightarrow> c = 45 | [] \<Rightarrow> False) then tl s else s"
  from a obtain ds r1 where i: "match_integer ?body = Some (ds, r1)"
    by (auto simp: match_number_def Let_def split: option.splits)
  obtain fr r2 where f: "match_frac r1 = (fr, r2)" by (cases "match_frac r1")
  obtain ex r3 where e: "match_exp r2 = (ex, r3)" by (cases "match_exp r2")
  from a i f e have "rest = r1 \<or> rest = r3"
    by (auto simp: match_number_def Let_def split: if_splits)
  moreover from i have "length r1 < length ?body" by (rule match_integer_length)
  moreover have "length ?body \<le> length s" by simp
  moreover note match_frac_length [OF f] match_exp_length [OF e]
  ultimately show ?thesis by auto
qed

lemma match_number_fuel: "match_number pf s \<noteq> Inl OutOfFuel"
  by (auto simp: match_number_def Let_def split: option.splits prod.splits)

lemma scan_atom_length: "scan_atom pf s = Inr (v, rest) \<Longrightarrow> length rest < length s"
proof -
  assume a: "scan_atom pf s = Inr (v, rest)"
  then obtain c cs where s: "s = c # cs" by (cases s) (auto simp: scan_atom_def)
  show ?thesis
  proof (cases "c = 34")
    case True
    with a s obtain str where "scanstring cs = Inr (str, rest)"
      by (auto simp: scan_atom_def split: sum.splits)
    then have "length rest < length cs" by (rule scanstring_length)
    with s show ?thesis by simp
  next
    case False
    have l: "starts_with p s \<Longrightarrow> p \<noteq> [] \<Longrightarrow> length (drop (length p) s) < length s" for p
      using s by (auto simp: starts_with_def)
    from a False s have "(starts_with (lit ''null'') s \<and> rest = drop 4 s)
        \<or> (starts_with (lit ''true'') s \<and> rest = drop 4 s)
        \<or> (starts_with (lit ''false'') s \<and> rest = drop 5 s)
        \<or> (starts_with (lit ''NaN'') s \<and> rest = drop 3 s)
        \<or> (starts_with (lit ''Infinity'') s \<and> rest = drop 8 s)
        \<or> (starts_with (lit ''-Infinity'') s \<and> rest = drop 9 s)
        \<or> match_number pf s = Inr (v, rest)"
      by (simp add: scan_atom_def split: if_splits)
    then show ?thesis
      using l [of "lit ''null''"] l [of "lit ''true''"] l [of "lit ''false''"]
        l [of "lit ''NaN''"] l [of "lit ''Infinity''"] l [of "lit ''-Infinity''"]
        match_number_length [of pf s v rest]
      by (auto simp: lit_def)
  qed
qed

lemma scan_atom_fuel: "scan_atom pf s \<noteq> Inl OutOfFuel"
  using scanstring_fuel match_number_fuel
  by (auto simp: scan_atom_def split: list.splits sum.splits)

lemma parse_key_length: "parse_key s = Inr (k, rest) \<Longrightarrow> length rest < length s"
proof -
  assume a: "parse_key s = Inr (k, rest)"
  then obtain cs where s: "s = 34 # cs"
    by (cases s) (auto simp: parse_key_def split: if_splits)
  with a obtain key r1 where k: "scanstring cs = Inr (key, r1)"
    by (auto simp: parse_key_def split: sum.splits)
  with a s obtain r2 where r: "skip_ws r1 = 58 # r2" "rest = skip_ws r2"
    by (auto simp: parse_key_def split: list.splits if_splits)
  from scanstring_length [OF k] have "length r1 < length cs" .
  moreover from r(1) skip_ws_length [of r1] have "length r2 < length r1" by simp
  moreover from r(2) skip_ws_length [of r2] have "length rest \<le> length r2" by simp
  ultimately show ?thesis using s by simp
qed

lemma parse_key_fuel: "parse_key s \<noteq> Inl OutOfFuel"
  using scanstring_fuel
  by (auto simp: parse_key_def split: list.splits sum.splits)

lemma next_delim_length:
  "next_delim close s = Close r \<Longrightarrow> length r < length s"
  "next_delim close s = More r \<Longrightarrow> length r < length s"
proof -
  have a: "skip_ws s = d # ds \<Longrightarrow> length ds < length s" for d ds
    using skip_ws_length [of s] by simp
  have b: "skip_ws s = d # ds \<Longrightarrow> length (skip_ws ds) < length s" for d ds
    using skip_ws_length [of s] skip_ws_length [of ds] by simp
  show "next_delim close s = Close r \<Longrightarrow> length r < length s"
    using a by (auto simp: next_delim_def split: list.splits if_splits)
  show "next_delim close s = More r \<Longrightarrow> length r < length s"
    using b by (auto simp: next_delim_def split: list.splits if_splits)
qed

lemma with_value_Inr: "with_value g x = Inr (y, r) \<Longrightarrow> \<exists>x'. x = Inr (x', r)"
  by (auto simp: with_value_def split: sum.splits)

lemma with_value_Inl: "with_value g x = Inl e \<Longrightarrow> x = Inl e"
  by (auto simp: with_value_def split: sum.splits)

lemma starts_with_length: "starts_with [c] s \<Longrightarrow> length (tl s) < length s"
  by (cases s) (auto simp: starts_with_def)

lemma parser_length_all:
  "\<forall>s. (\<forall>v r. scan_once pf f s = Inr (v, r) \<longrightarrow> length r < length s)
      \<and> (\<forall>vs r. parse_items pf f s = Inr (vs, r) \<longrightarrow> length r < length s)
      \<and> (\<forall>kvs r. parse_members pf f s = Inr (kvs, r) \<longrightarrow> length r < length s)"
proof (induction f)
  case 0
  show ?case by simp
next
  case (Suc f)
  have once: "length r < length s" if a: "scan_once pf (Suc f) s = Inr (v, r)" for s v r
  proof -
    have sub: "length r < length s"
      if o: "starts_with [c] s" and e: "starts_with [d] (skip_ws (tl s)) \<longrightarrow> r = tl (skip_ws (tl s))"
        and n: "\<not> starts_with [d] (skip_ws (tl s)) \<longrightarrow> length r < length (skip_ws (tl s))"
      for c d
    proof -
      have "length (skip_ws (tl s)) \<le> length (tl s)" by (rule skip_ws_length)
      moreover have "length (tl s) < length s" using o by (rule starts_with_length)
      moreover have "length r \<le> length (skip_ws (tl s))"
        using e n by (cases "starts_with [d] (skip_ws (tl s))") auto
      ultimately show ?thesis by simp
    qed
    show ?thesis
    proof (cases "starts_with [123] s")
      case True
      show ?thesis
      proof (rule sub [OF True, of 125])
        show "starts_with [125] (skip_ws (tl s)) \<longrightarrow> r = tl (skip_ws (tl s))"
          using a True by auto
        show "\<not> starts_with [125] (skip_ws (tl s)) \<longrightarrow> length r < length (skip_ws (tl s))"
        proof
          assume "\<not> starts_with [125] (skip_ws (tl s))"
          with a True obtain kvs where "parse_members pf f (skip_ws (tl s)) = Inr (kvs, r)"
            using with_value_Inr by fastforce
          with Suc.IH show "length r < length (skip_ws (tl s))" by blast
        qed
      qed
    next
      case o: False
      show ?thesis
      proof (cases "starts_with [91] s")
        case True
        show ?thesis
        proof (rule sub [OF True, of 93])
          show "starts_with [93] (skip_ws (tl s)) \<longrightarrow> r = tl (skip_ws (tl s))"
            using a o True by auto
          show "\<not> starts_with [93] (skip_ws (tl s)) \<longrightarrow> length r < length (skip_ws (tl s))"
          proof
            assume "\<not> starts_with [93] (skip_ws (tl s))"
            with a o True obtain vs where "parse_items pf f (skip_ws (tl s)) = Inr (vs, r)"
              using with_value_Inr by fastforce
            with Suc.IH show "length r < length (skip_ws (tl s))" by blast
          qed
        qed
      next
        case False
        with a o have "scan_atom pf s = Inr (v, r)" by simp
        then show ?thesis by (rule scan_atom_length)
      qed
    qed
  qed
  have items: "length r < length s" if a: "parse_items pf (Suc f) s = Inr (vs, r)" for s vs r
  proof -
    from a obtain v rest where v: "scan_once pf f s = Inr (v, rest)"
      by (auto split: sum.splits)
    with Suc.IH have l: "length rest < length s" by blast
    show ?thesis
    proof (cases "next_delim 93 rest")
      case (Close r')
      with a v have "r = r'" by simp
      with next_delim_length(1) [OF Close] l show ?thesis by simp
    next
      case (More r')
      with a v obtain vs' where "parse_items pf f r' = Inr (vs', r)"
        using with_value_Inr by fastforce
      with Suc.IH have "length r < length r'" by blast
      with next_delim_length(2) [OF More] l show ?thesis by simp
    next
      case Bad
      with a v show ?thesis by simp
    qed
  qed
  have members: "length r < length s" if a: "parse_members pf (Suc f) s = Inr (kvs, r)" for s kvs r
  proof -
    from a obtain key r0 where k: "parse_key s = Inr (key, r0)"
      by (auto split: sum.splits)
    with a obtain v rest where v: "scan_once pf f r0 = Inr (v, rest)"
      by (auto split: sum.splits)
    from parse_key_length [OF k] have l0: "length r0 < length s" .
    from v Suc.IH have l: "length rest < length r0" by blast
    show ?thesis
    proof (cases "next_delim 125 rest")
      case (Close r')
      with a k v have "r = r'" by simp
      with next_delim_length(1) [OF Close] l l0 show ?thesis by simp
    next
      case (More r')
      with a k v obtain kvs' where "parse_members pf f r' = Inr (kvs', r)"
        using with_value_Inr by fastforce
      with Suc.IH have "length r < length r'" by blast
      with next_delim_length(2) [OF More] l l0 show ?thesis by simp
    next
      case Bad
      with a k v show ?thesis by simp
    qed
  qed
  from once items members show ?case by blast
qed

lemma scan_once_length: "scan_once pf f s = Inr (v, r) \<Longrightarrow> length r < length s"
  using parser_length_all [of pf f] by blast

lemma parser_fuel_all:
  "\<forall>s. (2 * length s + 1 \<le> f \<longrightarrow> scan_once pf f s \<noteq> Inl OutOfFuel)
      \<and> (2 * length s + 2 \<le> f \<longrightarrow> parse_items pf f s \<noteq> Inl OutOfFuel)
      \<and> (2 * length s + 2 \<le> f \<longrightarrow> parse_members pf f s \<noteq> Inl OutOfFuel)"
proof (induction f)
  case 0
  show ?case by simp
next
  case (Suc f)
  have inner: "2 * length (skip_ws (tl s)) + 2 \<le> f"
    if "starts_with [c] s" and "2 * length s + 1 \<le> Suc f" for c s
  proof -
    have "length (skip_ws (tl s)) \<le> length (tl s)" by (rule skip_ws_length)
    moreover have "length (tl s) < length s" using that(1) by (rule starts_with_length)
    ultimately show ?thesis using that(2) by simp
  qed
  have once: "scan_once pf (Suc f) s \<noteq> Inl OutOfFuel" if a: "2 * length s + 1 \<le> Suc f" for s
  proof
    assume o: "scan_once pf (Suc f) s = Inl OutOfFuel"
    show False
    proof (cases "starts_with [123] s")
      case True
      with o have "parse_members pf f (skip_ws (tl s)) = Inl OutOfFuel"
        by (auto split: if_splits dest: with_value_Inl)
      with Suc.IH inner [OF True a] show False by blast
    next
      case n: False
      show False
      proof (cases "starts_with [91] s")
        case True
        with o n have "parse_items pf f (skip_ws (tl s)) = Inl OutOfFuel"
          by (auto split: if_splits dest: with_value_Inl)
        with Suc.IH inner [OF True a] show False by blast
      next
        case False
        with o n have "scan_atom pf s = Inl OutOfFuel" by simp
        with scan_atom_fuel show False by blast
      qed
    qed
  qed
  have items: "parse_items pf (Suc f) s \<noteq> Inl OutOfFuel" if a: "2 * length s + 2 \<le> Suc f" for s
  proof
    assume o: "parse_items pf (Suc f) s = Inl OutOfFuel"
    from a Suc.IH have n: "scan_once pf f s \<noteq> Inl OutOfFuel" by simp
    with o obtain v rest where v: "scan_once pf f s = Inr (v, rest)"
      by (cases "scan_once pf f s") auto
    from scan_once_length [OF v] have l: "length rest < length s" .
    show False
    proof (cases "next_delim 93 rest")
      case (Close r')
      with o v show False by simp
    next
      case (More r')
      with o v have "parse_items pf f r' = Inl OutOfFuel"
        by (auto dest: with_value_Inl)
      moreover from next_delim_length(2) [OF More] l a have "2 * length r' + 2 \<le> f" by simp
      ultimately show False using Suc.IH by blast
    next
      case Bad
      with o v show False by simp
    qed
  qed
  have members: "parse_members pf (Suc f) s \<noteq> Inl OutOfFuel"
    if a: "2 * length s + 2 \<le> Suc f" for s
  proof
    assume o: "parse_members pf (Suc f) s = Inl OutOfFuel"
    with parse_key_fuel [of s] obtain key r0 where k: "parse_key s = Inr (key, r0)"
      by (cases "parse_key s") auto
    from parse_key_length [OF k] have l0: "length r0 < length s" .
    with a Suc.IH have n: "scan_once pf f r0 \<noteq> Inl OutOfFuel" by simp
    with o k obtain v rest where v: "scan_once pf f r0 = Inr (v, rest)"
      by (cases "scan_once pf f r0") auto
    from scan_once_length [OF v] have l: "length rest < length r0" .
    show False
    proof (cases "next_delim 125 rest")
      case (Close r')
      with o k v show False by simp
    next
      case (More r')
      with o k v have "parse_members pf f r' = Inl OutOfFuel"
        by (auto dest: with_value_Inl)
      moreover from next_delim_length(2) [OF More] l l0 a have "2 * length r' + 2 \<le> f" by simp
      ultimately show False using Suc.IH by blast
    next
      case Bad
      with o k v show False by simp
    qed
  qed
  from once items members show ?case by blast
qed

lemma loads_fuel: "loads pf s \<noteq> Inl OutOfFuel"
proof -
  have "2 * length (skip_ws s) + 1 \<le> 2 * length s + 2"
    using skip_ws_length [of s] by simp
  with parser_fuel_all [of "2 * length s + 2" pf]
  have "scan_once pf (2 * length s + 2) (skip_ws s) \<noteq> Inl OutOfFuel" by blast
  then show ?thesis
    by (auto simp: loads_def split: sum.splits)
qed

lemma scan_once_fuel_mono_all:
  "\<forall>s g. f \<le> g \<longrightarrow>
      (\<forall>r. scan_once pf f s = Inr r \<longrightarrow> scan_once pf g s = Inr r)
    \<and> (\<forall>r. parse_items pf f s = Inr r \<longrightarrow> parse_items pf g s = Inr r)
    \<and> (\<forall>r. parse_members pf f s = Inr r \<longrightarrow> parse_members pf g s = Inr r)"
proof (induction f)
  case 0
  show ?case by simp
next
  case (Suc f)
  show ?case
  proof (intro allI impI)
    fix s g
    assume "Suc f \<le> g"
    then obtain h where g: "g = Suc h" and h: "f \<le> h" by (cases g) auto
    from Suc.IH h have ih:
      "\<And>s r. scan_once pf f s = Inr r \<Longrightarrow> scan_once pf h s = Inr r"
      "\<And>s r. parse_items pf f s = Inr r \<Longrightarrow> parse_items pf h s = Inr r"
      "\<And>s r. parse_members pf f s = Inr r \<Longrightarrow> parse_members pf h s = Inr r"
      by blast+
    have wv: "with_value k x = Inr r \<Longrightarrow> (\<And>y. x = Inr y \<Longrightarrow> x' = Inr y)
        \<Longrightarrow> with_value k x' = Inr r" for k x x' r
      by (cases x) (auto simp: with_value_def)
    have 1: "scan_once pf g s = Inr r" if a: "scan_once pf (Suc f) s = Inr r" for r
      using a g ih(2,3) [of "skip_ws (tl s)"]
      by (auto split: if_splits elim!: wv)
    have 2: "parse_items pf g s = Inr r" if a: "parse_items pf (Suc f) s = Inr r" for r
    proof -
      from a obtain v rest where v: "scan_once pf f s = Inr (v, rest)"
        by (auto split: sum.splits)
      from ih(1) [OF v] have v': "scan_once pf h s = Inr (v, rest)" .
      show ?thesis
      proof (cases "next_delim 93 rest")
        case (More r')
        with a v have "with_value (Cons v) (parse_items pf f r') = Inr r" by simp
        then have "with_value (Cons v) (parse_items pf h r') = Inr r"
          by (rule wv) (rule ih(2))
        with More v' g show ?thesis by simp
      qed (use a v v' g in auto)
    qed
    have 3: "parse_members pf g s = Inr r" if a: "parse_members pf (Suc f) s = Inr r" for r
    proof -
      from a obtain key r0 where k: "parse_key s = Inr (key, r0)"
        by (auto split: sum.splits)
      with a obtain v rest where v: "scan_once pf f r0 = Inr (v, rest)"
        by (auto split: sum.splits)
      from ih(1) [OF v] have v': "scan_once pf h r0 = Inr (v, rest)" .
      show ?thesis
      proof (cases "next_delim 125 rest")
        case (More r')
        with a k v have "with_value (Cons (key, v)) (parse_members pf f r') = Inr r" by simp
        then have "with_value (Cons (key, v)) (parse_members pf h r') = Inr r"
          by (rule wv) (rule ih(3))
        with More k v' g show ?thesis by simp
      qed (use a k v v' g in auto)
    qed
    from 1 2 3 show "(\<forall>r. scan_once pf (Suc f) s = Inr r \<longrightarrow> scan_once pf g s = Inr r)
      \<and> (\<forall>r. parse_items pf (Suc f) s = Inr r \<longrightarrow> parse_items pf g s = Inr r)
      \<and> (\<forall>r. parse_members pf (Suc f) s = Inr r \<longrightarrow> parse_members pf g s = Inr r)"
      by blast
  qed
qed

lemma decode_rows_fuel: "decode_rows pf rows \<noteq> Inl OutOfFuel"
  using loads_fuel by (induction rows) (auto split: sum.splits)

lemma Logger_tail_fuel: "Logger_tail pf n st \<noteq> Inl OutOfFuel"
  using decode_rows_fuel
  by (auto simp: Logger_tail_def bind_int_def split: sum.splits)


section \<open>The stores over sequences of calls\<close>

lemma Logger_append_outcomes:
  assumes "Logger_append sha256 now env src pl st = (res, st')"
  shows "(\<exists>e. res = Inl e \<and> st' = st)
     \<or> (\<exists>e. res = Inl e \<and> st' = st\<lparr>log_lines := log_lines st @
              [log_line_of \<lparr>ts = now, sha = sha256 (dumps True pl), source = src,
                            payload = dumps False pl\<rparr>]\<rparr>)
     \<or> (res = Inr () \<and> st' = st\<lparr>log_lines := log_lines st @
              [log_line_of \<lparr>ts = now, sha = sha256 (dumps True pl), source = src,
                            payload = dumps False pl\<rparr>],
            audit_index := audit_index st @
              [\<lparr>ts = now, sha = sha256 (dumps True pl), source = src,
                payload = dumps False pl\<rparr>]\<rparr>)"
  using assms
  by (auto simp: Logger_append_def fingerprint_eq record_line_eq split: sum.splits
      dest!: gzip_write_Inr sqlite_insert_Inr)

lemma Logger_append_decodable:
  assumes "Logger_append sha256 now env src pl st = (res, st')" and "payload_ok pl"
    and "list_all (decodable pf) (audit_index st)"
  shows "list_all (decodable pf) (audit_index st')"
  using Logger_append_outcomes [OF assms(1)] assms(3) loads_dumps [OF assms(2), of pf]
  by (auto simp: decodable_def)

lemma run_appends_decodable:
  assumes "list_all (\<lambda>c. payload_ok (c_payload c)) cs"
    and "list_all (decodable pf) (audit_index st)"
  shows "list_all (decodable pf) (audit_index (snd (run_appends sha256 cs st)))"
  using assms
proof (induction cs arbitrary: st)
  case Nil
  then show ?case by simp
next
  case (Cons c cs)
  obtain res st' where a: "Logger_append sha256 (c_now c) (c_env c) (c_source c) (c_payload c) st
      = (res, st')" by (cases "Logger_append sha256 (c_now c) (c_env c) (c_source c) (c_payload c) st")
  with Cons.prems have "list_all (decodable pf) (audit_index st')"
    by (intro Logger_append_decodable [OF a]) simp_all
  with Cons.prems(1) have "list_all (decodable pf) (audit_index (snd (run_appends sha256 cs st')))"
    by (intro Cons.IH) simp_all
  with a show ?case by (auto split: prod.splits)
qed

lemma run_appends_init_decodable:
  "list_all (\<lambda>c. payload_ok (c_payload c)) cs \<Longrightarrow>
     list_all (decodable pf) (audit_index (snd (run_appends sha256 cs Logger_init)))"
  by (rule run_appends_decodable) (simp_all add: Logger_init_def)

lemma Logger_append_subseq:
  assumes "Logger_append sha256 now env src pl st = (res, st')"
    and "subseq (map log_line_of (audit_index st)) (log_lines st)"
  shows "subseq (map log_line_of (audit_index st')) (log_lines st')"
  using Logger_append_outcomes [OF assms(1)] assms(2)
  by (auto intro: list_emb_append_mono)

lemma run_appends_subseq:
  assumes "subseq (map log_line_of (audit_index st)) (log_lines st)"
  shows "subseq (map log_line_of (audit_index (snd (run_appends sha256 cs st))))
           (log_lines (snd (run_appends sha256 cs st)))"
  using assms
proof (induction cs arbitrary: st)
  case Nil
  then show ?case by simp
next
  case (Cons c cs)
  obtain res st' where a: "Logger_append sha256 (c_now c) (c_env c) (c_source c) (c_payload c) st
      = (res, st')" by (cases "Logger_append sha256 (c_now c) (c_env c) (c_source c) (c_payload c) st")
  from Logger_append_subseq [OF a Cons.prems]
  have "subseq (map log_line_of (audit_index (snd (run_appends sha256 cs st'))))
           (log_lines (snd (run_appends sha256 cs st')))"
    by (rule Cons.IH)
  with a show ?case by (auto split: prod.splits)
qed

lemma run_appends_all_success:
  assumes "list_all (\<lambda>r. r = Inr ()) (fst (run_appends sha256 cs st))"
    and "log_lines st = map log_line_of (audit_index st)"
  shows "log_lines (snd (run_appends sha256 cs st))
         = map log_line_of (audit_index (snd (run_appends sha256 cs st)))"
  using assms
proof (induction cs arbitrary: st)
  case Nil
  then show ?case by simp
next
  case (Cons c cs)
  obtain res st' where a: "Logger_append sha256 (c_now c) (c_env c) (c_source c) (c_payload c) st
      = (res, st')" by (cases "Logger_append sha256 (c_now c) (c_env c) (c_source c) (c_payload c) st")
  with Cons.prems(1) have r: "res = Inr ()"
    and l: "list_all (\<lambda>r. r = Inr ()) (fst (run_appends sha256 cs st'))"
    by (simp_all split: prod.splits)
  from Logger_append_outcomes [OF a] r Cons.prems(2)
  have "log_lines st' = map log_line_of (audit_index st')" by auto
  with l have "log_lines (snd (run_appends sha256 cs st'))
         = map log_line_of (audit_index (snd (run_appends sha256 cs st')))"
    by (rule Cons.IH)
  with a show ?case by (auto split: prod.splits)
qed

lemma Logger_tail_Inr:
  assumes "Logger_tail pf n st = Inr es"
  shows "list_all2 (entry_of_row pf) es (tail_rows n st)" and "- (2 ^ 63) \<le> n" and "n < 2 ^ 63"
  using assms
  by (auto simp: Logger_tail_def split: sum.splits dest!: bind_int_Inr decode_rows_Inr)



lemma failed_insert_then_append:
  \<open>run_appends zero_digest
          [\<lparr>c_now = 1700000000, c_env = \<lparr>log_fault = None, db_fault = Some DatabaseError\<rparr>,
             c_source = lit ''svc1'', c_payload = PDict [(lit ''msg'', PStr (lit ''hello''))]\<rparr>,
           \<lparr>c_now = 1700000005, c_env = no_faults, c_source = lit ''svc2'',
             c_payload = PDict [(lit ''msg'', PStr (lit ''world''))]\<rparr>]
          Logger_init
    = ([Inl DatabaseError, Inr ()],
       \<lparr>log_lines =
          [record_line 1700000000 (replicate 64 48) (lit ''svc1'')
             (PDict [(lit ''msg'', PStr (lit ''hello''))]),
           record_line 1700000005 (replicate 64 48) (lit ''svc2'')
             (PDict [(lit ''msg'', PStr (lit ''world''))])],
        audit_index =
          [\<lparr>ts = 1700000005, sha = replicate 64 48, source = lit ''svc2'',
             payload = lit ''{"msg": "world"}''\<rparr>]\<rparr>)\<close>
proof -
  have 1: \<open>Logger_append zero_digest 1700000000 \<lparr>log_fault = None, db_fault = Some DatabaseError\<rparr>
        (lit ''svc1'') (PDict [(lit ''msg'', PStr (lit ''hello''))]) Logger_init
      = (Inl DatabaseError, \<lparr>log_lines = [record_line 1700000000 (replicate 64 48) (lit ''svc1'')
             (PDict [(lit ''msg'', PStr (lit ''hello''))])], audit_index = []\<rparr>)\<close>
    by (simp add: Logger_append_def fingerprint_eq gzip_write_def sqlite_insert_def
        Logger_init_def zero_digest_def encode_def list_ex_iff record_line_def lit_def
        encode_basestring_def escape_char_def escape_dct_def is_surrogate_def int_repr_def
        digits.simps)
  note 2 = 1 [unfolded lit_def, simplified]
  show ?thesis
    by (simp add: 2 zero_digest_append lit_def encode_basestring_def escape_char_def
      escape_dct_def is_surrogate_def)
qed


lemma loads_not_json: \<open>loads pf (lit ''oops'') = Inl JSONDecodeError\<close>
  by code_simp

section \<open>The claims\<close>

text \<open>
  C1, as the code has it. A successful call \<^verbatim>\<open>append(source, payload)\<close> adds exactly one
  line to the Append Log and exactly one row to the Index Store: the row carries the
  timestamp of the call, the fingerprint and the source, its payload column is the payload
  serialized by \<^verbatim>\<open>json.dumps(payload, ensure_ascii=False)\<close>, and the log line is the record
  written with exactly these columns, the payload field of the line being the text of the
  payload column. So the record written by this call has its row; and if log and index
  corresponded line by row before the call, they do after it. Over every sequence of calls
  on a new store, the records of the rows of the index are in the log, in the order of the
  rows; and if every call of the sequence succeeded, log and index correspond line by row:
  every record of the log has its row.
\<close>

theorem append_log_index_correspondence:
  "(Logger_append sha256 now env src pl st = (Inr (), st') \<longrightarrow>
      (\<exists>r. audit_index st' = audit_index st @ [r]
          \<and> log_lines st' = log_lines st @ [log_line_of r]
          \<and> ts r = now \<and> sha r = sha256 (dumps True pl) \<and> source r = src
          \<and> payload r = dumps False pl
          \<and> (log_lines st = map log_line_of (audit_index st)
               \<longrightarrow> log_lines st' = map log_line_of (audit_index st'))))
   \<and> subseq (map log_line_of (audit_index (snd (run_appends sha256 cs Logger_init))))
        (log_lines (snd (run_appends sha256 cs Logger_init)))
   \<and> (list_all (\<lambda>r. r = Inr ()) (fst (run_appends sha256 cs Logger_init)) \<longrightarrow>
        log_lines (snd (run_appends sha256 cs Logger_init))
          = map log_line_of (audit_index (snd (run_appends sha256 cs Logger_init))))"
proof (intro conjI impI)
  assume "Logger_append sha256 now env src pl st = (Inr (), st')"
  from Logger_append_Inr [OF this]
  show "\<exists>r. audit_index st' = audit_index st @ [r]
          \<and> log_lines st' = log_lines st @ [log_line_of r]
          \<and> ts r = now \<and> sha r = sha256 (dumps True pl) \<and> source r = src
          \<and> payload r = dumps False pl
          \<and> (log_lines st = map log_line_of (audit_index st)
               \<longrightarrow> log_lines st' = map log_line_of (audit_index st'))"
    by (simp add: record_line_eq)
next
  show "subseq (map log_line_of (audit_index (snd (run_appends sha256 cs Logger_init))))
        (log_lines (snd (run_appends sha256 cs Logger_init)))"
    by (rule run_appends_subseq) (simp add: Logger_init_def)
next
  assume "list_all (\<lambda>r. r = Inr ()) (fst (run_appends sha256 cs Logger_init))"
  then show "log_lines (snd (run_appends sha256 cs Logger_init))
          = map log_line_of (audit_index (snd (run_appends sha256 cs Logger_init)))"
    by (rule run_appends_all_success) (simp add: Logger_init_def)
qed

theorem append_log_index_correspondence_witness:
  \<open>Logger_append zero_digest 1700000005 no_faults (lit ''svc2'') (PDict [(lit ''b'', PInt 2)])
       \<lparr>log_lines = [log_line_of \<lparr>ts = 1700000000, sha = replicate 64 48, source = lit ''svc1'',
                                    payload = lit ''{"a": 1}''\<rparr>],
        audit_index = [\<lparr>ts = 1700000000, sha = replicate 64 48, source = lit ''svc1'',
                        payload = lit ''{"a": 1}''\<rparr>]\<rparr>
     = (Inr (),
        \<lparr>log_lines = [log_line_of \<lparr>ts = 1700000000, sha = replicate 64 48, source = lit ''svc1'',
                                     payload = lit ''{"a": 1}''\<rparr>,
                      log_line_of \<lparr>ts = 1700000005, sha = replicate 64 48, source = lit ''svc2'',
                                     payload = lit ''{"b": 2}''\<rparr>],
         audit_index = [\<lparr>ts = 1700000000, sha = replicate 64 48, source = lit ''svc1'',
                         payload = lit ''{"a": 1}''\<rparr>,
                        \<lparr>ts = 1700000005, sha = replicate 64 48, source = lit ''svc2'',
                         payload = lit ''{"b": 2}''\<rparr>]\<rparr>)
   \<and> log_line_of \<lparr>ts = 1700000005, sha = replicate 64 48, source = lit ''svc2'',
                   payload = lit ''{"b": 2}''\<rparr>
       = lit ''{"ts": 1700000005, "sha": "'' @ replicate 64 48
         @ lit ''", "source": "svc2", "payload": {"b": 2}}'' @ [10]
   \<and> list_all (\<lambda>r. r = Inr ()) (fst (run_appends zero_digest
          [\<lparr>c_now = 1700000000, c_env = no_faults, c_source = lit ''svc1'',
             c_payload = PDict [(lit ''a'', PInt 1)]\<rparr>,
           \<lparr>c_now = 1700000005, c_env = no_faults, c_source = lit ''svc2'',
             c_payload = PDict [(lit ''b'', PInt 2)]\<rparr>]
          Logger_init))
   \<and> log_lines (snd (run_appends zero_digest
          [\<lparr>c_now = 1700000000, c_env = no_faults, c_source = lit ''svc1'',
             c_payload = PDict [(lit ''a'', PInt 1)]\<rparr>,
           \<lparr>c_now = 1700000005, c_env = no_faults, c_source = lit ''svc2'',
             c_payload = PDict [(lit ''b'', PInt 2)]\<rparr>]
          Logger_init))
       = map log_line_of (audit_index (snd (run_appends zero_digest
          [\<lparr>c_now = 1700000000, c_env = no_faults, c_source = lit ''svc1'',
             c_payload = PDict [(lit ''a'', PInt 1)]\<rparr>,
           \<lparr>c_now = 1700000005, c_env = no_faults, c_source = lit ''svc2'',
             c_payload = PDict [(lit ''b'', PInt 2)]\<rparr>]
          Logger_init)))
   \<and> length (log_lines (snd (run_appends zero_digest
          [\<lparr>c_now = 1700000000, c_env = no_faults, c_source = lit ''svc1'',
             c_payload = PDict [(lit ''a'', PInt 1)]\<rparr>,
           \<lparr>c_now = 1700000005, c_env = no_faults, c_source = lit ''svc2'',
             c_payload = PDict [(lit ''b'', PInt 2)]\<rparr>]
          Logger_init))) = 2\<close>
proof -
  let ?r1 = \<open>\<lparr>ts = 1700000000, sha = replicate 64 48, source = lit ''svc1'',
              payload = lit ''{"a": 1}''\<rparr>\<close>
  let ?r2 = \<open>\<lparr>ts = 1700000005, sha = replicate 64 48, source = lit ''svc2'',
              payload = lit ''{"b": 2}''\<rparr>\<close>
  let ?st = "\<lparr>log_lines = [log_line_of ?r1], audit_index = [?r1]\<rparr>"
  let ?st' = "\<lparr>log_lines = [log_line_of ?r1, log_line_of ?r2], audit_index = [?r1, ?r2]\<rparr>"
  let ?run = \<open>run_appends zero_digest
          [\<lparr>c_now = 1700000000, c_env = no_faults, c_source = lit ''svc1'',
             c_payload = PDict [(lit ''a'', PInt 1)]\<rparr>,
           \<lparr>c_now = 1700000005, c_env = no_faults, c_source = lit ''svc2'',
             c_payload = PDict [(lit ''b'', PInt 2)]\<rparr>]
          Logger_init\<close>
  have h: "Logger_append zero_digest 1700000005 no_faults (lit ''svc2'')
      (PDict [(lit ''b'', PInt 2)]) ?st = (Inr (), ?st')"
    by (simp add: zero_digest_append record_line_eq lit_def encode_basestring_def
        escape_char_def escape_dct_def is_surrogate_def int_repr_def digits.simps)
  have l: \<open>log_line_of ?r2 = lit ''{"ts": 1700000005, "sha": "'' @ replicate 64 48
         @ lit ''", "source": "svc2", "payload": {"b": 2}}'' @ [10]\<close>
    by (simp add: log_line_of_def text_eval)
  have a: "list_all (\<lambda>r. r = Inr ()) (fst ?run)"
    unfolding two_appends_a_b by simp
  have n: "length (log_lines (snd ?run)) = 2"
    unfolding two_appends_a_b by simp
  note th = append_log_index_correspondence
  from th [of zero_digest 1700000005 no_faults "lit ''svc2''" "PDict [(lit ''b'', PInt 2)]" ?st ?st',
      THEN conjunct1, rule_format, OF h]
  have 1: "log_lines ?st' = map log_line_of (audit_index ?st')"
    by auto
  from th [of zero_digest _ _ _ _ _ _
      \<open>[\<lparr>c_now = 1700000000, c_env = no_faults, c_source = lit ''svc1'',
             c_payload = PDict [(lit ''a'', PInt 1)]\<rparr>,
           \<lparr>c_now = 1700000005, c_env = no_faults, c_source = lit ''svc2'',
             c_payload = PDict [(lit ''b'', PInt 2)]\<rparr>]\<close>,
      THEN conjunct2, THEN conjunct2, rule_format, OF a]
  have 2: "log_lines (snd ?run) = map log_line_of (audit_index (snd ?run))" .
  from h l a 2 n show ?thesis by blast
qed

text \<open>
  C1 as stated fails: a first call of \<^verbatim>\<open>append\<close> writes its record to the log and fails
  at the insert (the database raises), and a second call succeeds. After this successful
  call the log holds two records and the index one row; the record of the first call has
  no row: no row has its timestamp or its source, and it is the log line of no row.
\<close>

theorem append_record_without_row_counterexample:
  \<open>fst (run_appends zero_digest
          [\<lparr>c_now = 1700000000, c_env = \<lparr>log_fault = None, db_fault = Some DatabaseError\<rparr>,
             c_source = lit ''svc1'', c_payload = PDict [(lit ''msg'', PStr (lit ''hello''))]\<rparr>,
           \<lparr>c_now = 1700000005, c_env = no_faults, c_source = lit ''svc2'',
             c_payload = PDict [(lit ''msg'', PStr (lit ''world''))]\<rparr>]
          Logger_init) = [Inl DatabaseError, Inr ()]
    \<and> length (log_lines (snd (run_appends zero_digest
          [\<lparr>c_now = 1700000000, c_env = \<lparr>log_fault = None, db_fault = Some DatabaseError\<rparr>,
             c_source = lit ''svc1'', c_payload = PDict [(lit ''msg'', PStr (lit ''hello''))]\<rparr>,
           \<lparr>c_now = 1700000005, c_env = no_faults, c_source = lit ''svc2'',
             c_payload = PDict [(lit ''msg'', PStr (lit ''world''))]\<rparr>]
          Logger_init))) = 2
    \<and> stats_count (snd (run_appends zero_digest
          [\<lparr>c_now = 1700000000, c_env = \<lparr>log_fault = None, db_fault = Some DatabaseError\<rparr>,
             c_source = lit ''svc1'', c_payload = PDict [(lit ''msg'', PStr (lit ''hello''))]\<rparr>,
           \<lparr>c_now = 1700000005, c_env = no_faults, c_source = lit ''svc2'',
             c_payload = PDict [(lit ''msg'', PStr (lit ''world''))]\<rparr>]
          Logger_init)) = 1
    \<and> hd (log_lines (snd (run_appends zero_digest
          [\<lparr>c_now = 1700000000, c_env = \<lparr>log_fault = None, db_fault = Some DatabaseError\<rparr>,
             c_source = lit ''svc1'', c_payload = PDict [(lit ''msg'', PStr (lit ''hello''))]\<rparr>,
           \<lparr>c_now = 1700000005, c_env = no_faults, c_source = lit ''svc2'',
             c_payload = PDict [(lit ''msg'', PStr (lit ''world''))]\<rparr>]
          Logger_init)))
        = lit ''{"ts": 1700000000, "sha": "'' @ replicate 64 48
          @ lit ''", "source": "svc1", "payload": {"msg": "hello"}}'' @ [10]
    \<and> \<not> list_ex (\<lambda>r. ts r = 1700000000 \<or> source r = lit ''svc1'')
          (audit_index (snd (run_appends zero_digest
          [\<lparr>c_now = 1700000000, c_env = \<lparr>log_fault = None, db_fault = Some DatabaseError\<rparr>,
             c_source = lit ''svc1'', c_payload = PDict [(lit ''msg'', PStr (lit ''hello''))]\<rparr>,
           \<lparr>c_now = 1700000005, c_env = no_faults, c_source = lit ''svc2'',
             c_payload = PDict [(lit ''msg'', PStr (lit ''world''))]\<rparr>]
          Logger_init)))
    \<and> \<not> list_ex (\<lambda>r. log_line_of r = hd (log_lines (snd (run_appends zero_digest
          [\<lparr>c_now = 1700000000, c_env = \<lparr>log_fault = None, db_fault = Some DatabaseError\<rparr>,
             c_source = lit ''svc1'', c_payload = PDict [(lit ''msg'', PStr (lit ''hello''))]\<rparr>,
           \<lparr>c_now = 1700000005, c_env = no_faults, c_source = lit ''svc2'',
             c_payload = PDict [(lit ''msg'', PStr (lit ''world''))]\<rparr>]
          Logger_init))))
          (audit_index (snd (run_appends zero_digest
          [\<lparr>c_now = 1700000000, c_env = \<lparr>log_fault = None, db_fault = Some DatabaseError\<rparr>,
             c_source = lit ''svc1'', c_payload = PDict [(lit ''msg'', PStr (lit ''hello''))]\<rparr>,
           \<lparr>c_now = 1700000005, c_env = no_faults, c_source = lit ''svc2'',
             c_payload = PDict [(lit ''msg'', PStr (lit ''world''))]\<rparr>]
          Logger_init)))\<close>
  unfolding failed_insert_then_append
  by (simp add: stats_count_def log_line_of_def text_eval)





text \<open>
  C7. The \<^verbatim>\<open>stats\<close> count of a new store is 0, and after any sequence of calls of
  \<^verbatim>\<open>append\<close> on it, failed ones among them, it is the number of calls that succeeded.
\<close>

theorem count_equals_successful_appends:
  "stats_count Logger_init = 0
   \<and> stats_count (snd (run_appends sha256 cs Logger_init)) =
       length (filter (\<lambda>r. r = Inr ()) (fst (run_appends sha256 cs Logger_init)))"
  using run_appends_count [of sha256 cs Logger_init]
  by (simp add: stats_count_def Logger_init_def)

theorem count_equals_successful_appends_witness:
  \<open>fst (run_appends (\<lambda>b. lit ''ab'')
           [\<lparr>c_now = 10, c_env = no_faults, c_source = lit ''s1'', c_payload = PDict [(lit ''a'', PInt 1)]\<rparr>,
            \<lparr>c_now = 10, c_env = \<lparr>log_fault = Some OSError, db_fault = None\<rparr>, c_source = lit ''s2'',
              c_payload = PDict [(lit ''a'', PInt 2)]\<rparr>,
            \<lparr>c_now = 11, c_env = no_faults, c_source = lit ''s3'', c_payload = PDict []\<rparr>,
            \<lparr>c_now = 12, c_env = no_faults, c_source = lit ''s4'', c_payload = PDict [(lit ''a'', PInt 1)]\<rparr>]
           Logger_init) = [Inr (), Inl OSError, Inr (), Inr ()]
    \<and> stats_count (snd (run_appends (\<lambda>b. lit ''ab'')
           [\<lparr>c_now = 10, c_env = no_faults, c_source = lit ''s1'', c_payload = PDict [(lit ''a'', PInt 1)]\<rparr>,
            \<lparr>c_now = 10, c_env = \<lparr>log_fault = Some OSError, db_fault = None\<rparr>, c_source = lit ''s2'',
              c_payload = PDict [(lit ''a'', PInt 2)]\<rparr>,
            \<lparr>c_now = 11, c_env = no_faults, c_source = lit ''s3'', c_payload = PDict []\<rparr>,
            \<lparr>c_now = 12, c_env = no_faults, c_source = lit ''s4'', c_payload = PDict [(lit ''a'', PInt 1)]\<rparr>]
           Logger_init)) = 3\<close>
proof -
  have r: \<open>fst (run_appends (\<lambda>b. lit ''ab'')
           [\<lparr>c_now = 10, c_env = no_faults, c_source = lit ''s1'', c_payload = PDict [(lit ''a'', PInt 1)]\<rparr>,
            \<lparr>c_now = 10, c_env = \<lparr>log_fault = Some OSError, db_fault = None\<rparr>, c_source = lit ''s2'',
              c_payload = PDict [(lit ''a'', PInt 2)]\<rparr>,
            \<lparr>c_now = 11, c_env = no_faults, c_source = lit ''s3'', c_payload = PDict []\<rparr>,
            \<lparr>c_now = 12, c_env = no_faults, c_source = lit ''s4'', c_payload = PDict [(lit ''a'', PInt 1)]\<rparr>]
           Logger_init) = [Inr (), Inl OSError, Inr (), Inr ()]\<close>
    by (simp add: append_eval text_eval)
  with count_equals_successful_appends [of "\<lambda>b. lit ''ab''"
      \<open>[\<lparr>c_now = 10, c_env = no_faults, c_source = lit ''s1'', c_payload = PDict [(lit ''a'', PInt 1)]\<rparr>,
            \<lparr>c_now = 10, c_env = \<lparr>log_fault = Some OSError, db_fault = None\<rparr>, c_source = lit ''s2'',
              c_payload = PDict [(lit ''a'', PInt 2)]\<rparr>,
            \<lparr>c_now = 11, c_env = no_faults, c_source = lit ''s3'', c_payload = PDict []\<rparr>,
            \<lparr>c_now = 12, c_env = no_faults, c_source = lit ''s4'', c_payload = PDict [(lit ''a'', PInt 1)]\<rparr>]\<close>]
  show ?thesis by simp
qed

text \<open>
  C9. The fingerprint of a stored record is the digest of \<^verbatim>\<open>json.dumps(payload)\<close>, which
  escapes every non-ASCII character (so the text is its own encoding) and keeps the keys in
  insertion order, while the payload column holds
  \<^verbatim>\<open>json.dumps(payload, ensure_ascii=False)\<close>. For the payload \<^verbatim>\<open>{"k": "\<close>U+00E9\<^verbatim>\<open>"}\<close> the
  bytes that are hashed differ from the bytes of the persisted text.
\<close>

theorem hash_input_differs_from_persisted:
  \<open>(Logger_append sha256 now env src pl st = (Inr (), st') \<longrightarrow>
       fingerprint sha256 pl = Inr (sha256 (dumps True pl))
       \<and> encode (dumps True pl) = Inr (dumps True pl)
       \<and> sha (last (audit_index st')) = sha256 (dumps True pl)
       \<and> payload (last (audit_index st')) = dumps False pl)
    \<and> dumps True (PDict [(lit ''b'', PInt 1), (lit ''a'', PInt 2)]) = lit ''{"b": 1, "a": 2}''
    \<and> dumps True (PDict [(lit ''k'', PStr [233])]) = lit ''{"k": "'' @ [92] @ lit ''u00e9"}''
    \<and> dumps False (PDict [(lit ''k'', PStr [233])]) = lit ''{"k": "'' @ [233] @ lit ''"}''
    \<and> encode (dumps True (PDict [(lit ''k'', PStr [233])]))
        \<noteq> encode (dumps False (PDict [(lit ''k'', PStr [233])]))\<close>
proof -
  have "Logger_append sha256 now env src pl st = (Inr (), st') \<longrightarrow>
       fingerprint sha256 pl = Inr (sha256 (dumps True pl))
       \<and> encode (dumps True pl) = Inr (dumps True pl)
       \<and> sha (last (audit_index st')) = sha256 (dumps True pl)
       \<and> payload (last (audit_index st')) = dumps False pl"
    by (auto simp: fingerprint_eq encode_ascii dumps_ascii dest!: Logger_append_Inr)
  then show ?thesis
    by (simp add: text_eval)
qed

theorem hash_input_differs_from_persisted_witness:
  \<open>Logger_append (\<lambda>b. lit ''ab'') 10 no_faults (lit ''s'') (PDict [(lit ''k'', PStr [233])]) Logger_init
      = (Inr (), \<lparr>log_lines = [lit ''{"ts": 10, "sha": "ab", "source": "s", "payload": {"k": "''
                                @ [233] @ lit ''"}}'' @ [10]],
                  audit_index = [\<lparr>ts = 10, sha = lit ''ab'', source = lit ''s'',
                                  payload = lit ''{"k": "'' @ [233] @ lit ''"}''\<rparr>]\<rparr>)
    \<and> fingerprint (\<lambda>b. b) (PDict [(lit ''k'', PStr [233])]) = Inr (lit ''{"k": "'' @ [92] @ lit ''u00e9"}'')
    \<and> payload (last (audit_index
          \<lparr>log_lines = [lit ''{"ts": 10, "sha": "ab", "source": "s", "payload": {"k": "''
                                @ [233] @ lit ''"}}'' @ [10]],
                  audit_index = [\<lparr>ts = 10, sha = lit ''ab'', source = lit ''s'',
                                  payload = lit ''{"k": "'' @ [233] @ lit ''"}''\<rparr>]\<rparr>))
        = dumps False (PDict [(lit ''k'', PStr [233])])\<close>
proof -
  have h: \<open>Logger_append (\<lambda>b. lit ''ab'') 10 no_faults (lit ''s'') (PDict [(lit ''k'', PStr [233])]) Logger_init
      = (Inr (), \<lparr>log_lines = [lit ''{"ts": 10, "sha": "ab", "source": "s", "payload": {"k": "''
                                @ [233] @ lit ''"}}'' @ [10]],
                  audit_index = [\<lparr>ts = 10, sha = lit ''ab'', source = lit ''s'',
                                  payload = lit ''{"k": "'' @ [233] @ lit ''"}''\<rparr>]\<rparr>)\<close>
    by (simp add: append_eval text_eval)
  have g: \<open>Logger_append (\<lambda>b. b) 10 no_faults (lit ''s'') (PDict [(lit ''k'', PStr [233])]) Logger_init
      = (Inr (), \<lparr>log_lines = [lit ''{"ts": 10, "sha": "{'' @ [92] @ lit ''"k'' @ [92] @ lit ''": ''
                                @ [92] @ lit ''"'' @ [92, 92] @ lit ''u00e9'' @ [92] @ lit ''"}", "source": "s", "payload": {"k": "''
                                @ [233] @ lit ''"}}'' @ [10]],
                  audit_index = [\<lparr>ts = 10, sha = lit ''{"k": "'' @ [92] @ lit ''u00e9"}'', source = lit ''s'',
                                  payload = lit ''{"k": "'' @ [233] @ lit ''"}''\<rparr>]\<rparr>)\<close>
    by (simp add: append_eval text_eval)
  from hash_input_differs_from_persisted [of "\<lambda>b. lit ''ab''" 10 no_faults "lit ''s''"
      "PDict [(lit ''k'', PStr [233])]" Logger_init, THEN conjunct1, rule_format, OF h]
    hash_input_differs_from_persisted [of "\<lambda>b. b" 10 no_faults "lit ''s''"
      "PDict [(lit ''k'', PStr [233])]" Logger_init, THEN conjunct1, rule_format, OF g]
    h
  show ?thesis by (simp add: text_eval)
qed

text \<open>
  C10. If the write to the Append Log raises an error, be it raised by the file system or
  by the strict encoder of the text file, the call of \<^verbatim>\<open>append\<close> ends with that error and
  the Index Store is unchanged.
\<close>

theorem log_failure_leaves_index:
  assumes "gzip_write env (record_line now (sha256 (dumps True pl)) src pl) (log_lines st) = Inl e"
  shows "fst (Logger_append sha256 now env src pl st) = Inl e
         \<and> audit_index (snd (Logger_append sha256 now env src pl st)) = audit_index st"
  using assms by (simp add: Logger_append_def fingerprint_eq)

theorem log_failure_leaves_index_witness:
  \<open>gzip_write \<lparr>log_fault = Some OSError, db_fault = None\<rparr>
       (record_line 10 ((\<lambda>b. lit ''ab'') (dumps True (PDict [(lit ''a'', PInt 1)]))) (lit ''s'')
          (PDict [(lit ''a'', PInt 1)]))
       (log_lines \<lparr>log_lines = [], audit_index = [\<lparr>ts = 5, sha = lit ''cd'', source = lit ''x'',
                                                    payload = lit ''{}''\<rparr>]\<rparr>) = Inl OSError
    \<and> fst (Logger_append (\<lambda>b. lit ''ab'') 10 \<lparr>log_fault = Some OSError, db_fault = None\<rparr> (lit ''s'')
             (PDict [(lit ''a'', PInt 1)])
             \<lparr>log_lines = [], audit_index = [\<lparr>ts = 5, sha = lit ''cd'', source = lit ''x'',
                                               payload = lit ''{}''\<rparr>]\<rparr>) = Inl OSError
    \<and> audit_index (snd (Logger_append (\<lambda>b. lit ''ab'') 10 \<lparr>log_fault = Some OSError, db_fault = None\<rparr>
             (lit ''s'') (PDict [(lit ''a'', PInt 1)])
             \<lparr>log_lines = [], audit_index = [\<lparr>ts = 5, sha = lit ''cd'', source = lit ''x'',
                                               payload = lit ''{}''\<rparr>]\<rparr>))
      = [\<lparr>ts = 5, sha = lit ''cd'', source = lit ''x'', payload = lit ''{}''\<rparr>]
    \<and> gzip_write no_faults
         (record_line 10 ((\<lambda>b. lit ''ab'') (dumps True (PDict [(lit ''a'', PStr [55296])]))) (lit ''s'')
            (PDict [(lit ''a'', PStr [55296])])) (log_lines Logger_init) = Inl UnicodeEncodeError
    \<and> fst (Logger_append (\<lambda>b. lit ''ab'') 10 no_faults (lit ''s'')
             (PDict [(lit ''a'', PStr [55296])]) Logger_init) = Inl UnicodeEncodeError
    \<and> audit_index (snd (Logger_append (\<lambda>b. lit ''ab'') 10 no_faults (lit ''s'')
             (PDict [(lit ''a'', PStr [55296])]) Logger_init)) = []\<close>
proof -
  have a: \<open>gzip_write \<lparr>log_fault = Some OSError, db_fault = None\<rparr>
       (record_line 10 ((\<lambda>b. lit ''ab'') (dumps True (PDict [(lit ''a'', PInt 1)]))) (lit ''s'')
          (PDict [(lit ''a'', PInt 1)]))
       (log_lines \<lparr>log_lines = [], audit_index = [\<lparr>ts = 5, sha = lit ''cd'', source = lit ''x'',
                                                    payload = lit ''{}''\<rparr>]\<rparr>) = Inl OSError\<close>
    by (simp add: gzip_write_def)
  have b: \<open>gzip_write no_faults
         (record_line 10 ((\<lambda>b. lit ''ab'') (dumps True (PDict [(lit ''a'', PStr [55296])]))) (lit ''s'')
            (PDict [(lit ''a'', PStr [55296])])) (log_lines Logger_init) = Inl UnicodeEncodeError\<close>
    by (simp add: gzip_write_def no_faults_def text_eval)
  from log_failure_leaves_index [OF a] log_failure_leaves_index [OF b] a b
  show ?thesis by (simp add: Logger_init_def)
qed

text \<open>
  C8. On a new store, \<^verbatim>\<open>append("test", {"a": 1, "b": [1, 2, 3]})\<close> succeeds (for a clock
  reading that SQLite can store and a digest that is a hexdigest), the index then holds the
  one payload text \<^verbatim>\<open>{"a": 1, "b": [1, 2, 3]}\<close>, and \<^verbatim>\<open>search("a")\<close>, with its default limit
  10, returns exactly one entry, whose payload, decoded by \<^verbatim>\<open>json.loads\<close> from that text,
  is the payload that was ingested.
\<close>

theorem ingest_then_search_roundtrip:
  assumes "is_hexdigest (sha256 (dumps True (PDict [(lit ''a'', PInt 1),
                                                     (lit ''b'', PList [PInt 1, PInt 2, PInt 3])])))"
    and "- (2 ^ 63) \<le> now" and "now < 2 ^ 63"
  shows \<open>\<exists>st. Logger_append sha256 now no_faults (lit ''test'')
                (PDict [(lit ''a'', PInt 1), (lit ''b'', PList [PInt 1, PInt 2, PInt 3])])
                Logger_init = (Inr (), st)
            \<and> map payload (audit_index st) = [lit ''{"a": 1, "b": [1, 2, 3]}'']
            \<and> Logger_search pf (lit ''a'') 10 st =
                Inr [\<lparr>e_ts = now,
                      e_sha = sha256 (dumps True (PDict [(lit ''a'', PInt 1),
                                (lit ''b'', PList [PInt 1, PInt 2, PInt 3])])),
                      e_source = lit ''test'',
                      e_payload = PDict [(lit ''a'', PInt 1),
                                         (lit ''b'', PList [PInt 1, PInt 2, PInt 3])]\<rparr>]\<close>
proof -
  let ?P = "PDict [(lit ''a'', PInt 1), (lit ''b'', PList [PInt 1, PInt 2, PInt 3])]"
  let ?r = "\<lparr>ts = now, sha = sha256 (dumps True ?P), source = lit ''test'',
             payload = dumps False ?P\<rparr>"
  have p: \<open>dumps False ?P = lit ''{"a": 1, "b": [1, 2, 3]}''\<close>
    by (simp add: text_eval)
  have "\<not> list_ex is_surrogate (payload ?r)" "\<not> list_ex is_surrogate (source ?r)"
    by (simp_all add: text_eval)
  with is_hexdigest_no_surrogate [OF assms(1)]
  have "encode (log_line_of ?r) = Inr (concat (map utf8_char (log_line_of ?r)))"
    by (intro log_line_of_encodable) simp_all
  then have e: "encode (record_line now (sha256 (dumps True ?P)) (lit ''test'') ?P)
      = Inr (concat (map utf8_char (log_line_of ?r)))"
    by (simp add: record_line_eq)
  have a: "Logger_append sha256 now no_faults (lit ''test'') ?P Logger_init =
      (Inr (), Logger_init\<lparr>log_lines := log_lines Logger_init @
                  [record_line now (sha256 (dumps True ?P)) (lit ''test'') ?P],
                audit_index := audit_index Logger_init @ [?r]\<rparr>)"
    using Logger_append_success [where env = no_faults and now = now and ?sha256.0 = sha256
        and pl = ?P and src = "lit ''test''" and st = Logger_init, OF _ _ e assms(2) assms(3)]
    by (simp add: no_faults_def)
  have m: \<open>sql_like (lit ''%a%'') (lit ''{"a": 1, "b": [1, 2, 3]}'')\<close>
    by (simp add: sql_like_def c_string_def lit_def sql_lower_def)
  have s: "Logger_search pf (lit ''a'') 10
      (Logger_init\<lparr>log_lines := log_lines Logger_init @
                  [record_line now (sha256 (dumps True ?P)) (lit ''test'') ?P],
                audit_index := audit_index Logger_init @ [?r]\<rparr>) =
      Inr [\<lparr>e_ts = now, e_sha = sha256 (dumps True ?P), e_source = lit ''test'', e_payload = ?P\<rparr>]"
    using m loads_example [of pf]
    by (simp add: Logger_search_def search_rows_def bind_text_def bind_int_def
        order_by_ts_desc_def sql_limit_def Logger_init_def pattern_too_long_def text_eval)
  from a s p show ?thesis
    by (simp add: Logger_init_def)
qed

theorem ingest_then_search_roundtrip_witness:
  \<open>is_hexdigest ((\<lambda>b. replicate 64 48)
        (dumps True (PDict [(lit ''a'', PInt 1), (lit ''b'', PList [PInt 1, PInt 2, PInt 3])])))
    \<and> - (2 ^ 63) \<le> (1700000000 :: int) \<and> (1700000000 :: int) < 2 ^ 63
    \<and> (\<exists>st. Logger_append (\<lambda>b. replicate 64 48) 1700000000 no_faults (lit ''test'')
                (PDict [(lit ''a'', PInt 1), (lit ''b'', PList [PInt 1, PInt 2, PInt 3])])
                Logger_init = (Inr (), st)
            \<and> map payload (audit_index st) = [lit ''{"a": 1, "b": [1, 2, 3]}'']
            \<and> Logger_search zero_float (lit ''a'') 10 st =
                Inr [\<lparr>e_ts = 1700000000, e_sha = replicate 64 48, e_source = lit ''test'',
                      e_payload = PDict [(lit ''a'', PInt 1),
                                         (lit ''b'', PList [PInt 1, PInt 2, PInt 3])]\<rparr>])\<close>
proof -
  have h: \<open>is_hexdigest ((\<lambda>b. replicate 64 48)
        (dumps True (PDict [(lit ''a'', PInt 1), (lit ''b'', PList [PInt 1, PInt 2, PInt 3])])))\<close>
    by (simp add: is_hexdigest_def list_all_iff)
  have lo: "- (2 ^ 63) \<le> (1700000000 :: int)" and hi: "(1700000000 :: int) < 2 ^ 63"
    by simp_all
  from ingest_then_search_roundtrip [of "\<lambda>b. replicate 64 48" 1700000000 zero_float, OF h lo hi] h
  show ?thesis by simp
qed




text \<open>
  C3, as the code has it. On every store, what \<^verbatim>\<open>tail(n)\<close> returns for \<open>n > 0\<close> are
  exactly \<open>min n total\<close> entries: those of the first \<open>n\<close> rows of the table sorted by
  \<^verbatim>\<open>ts\<close> descending, where rows of equal \<^verbatim>\<open>ts\<close> stay in insertion order, the earliest
  inserted first. For \<open>0 < n < 2\<^sup>6\<^sup>3\<close> the call returns when \<^verbatim>\<open>json.loads\<close> accepts the
  payload text of every row; this is so on the store left by every sequence of calls of
  \<^verbatim>\<open>append\<close> on a new store with payloads that satisfy \<open>payload_ok\<close>. Whatever the call
  does, the parser of the model has fuel enough for it.
\<close>

theorem tail_returns_most_recent:
  "(0 < n \<and> Logger_tail pf n st = Inr es \<longrightarrow>
        length es = min (nat n) (stats_count st)
      \<and> list_all2 (entry_of_row pf) es (take (nat n) (order_by_ts_desc (audit_index st)))
      \<and> sorted_wrt (\<lambda>a b. e_ts b \<le> e_ts a) es)
   \<and> (\<forall>t. filter (\<lambda>r. ts r = t) (order_by_ts_desc (audit_index st))
             = filter (\<lambda>r. ts r = t) (audit_index st))
   \<and> (0 < n \<and> n < 2 ^ 63 \<and> list_all (decodable pf) (audit_index st) \<longrightarrow>
        (\<exists>es. Logger_tail pf n st = Inr es))
   \<and> (0 < n \<and> n < 2 ^ 63 \<and> list_all (\<lambda>c. payload_ok (c_payload c)) cs \<longrightarrow>
        (\<exists>es. Logger_tail pf n (snd (run_appends sha256 cs Logger_init)) = Inr es))
   \<and> Logger_tail pf n st \<noteq> Inl OutOfFuel"
proof (intro conjI impI allI)
  assume a: "0 < n \<and> Logger_tail pf n st = Inr es"
  then have e: "list_all2 (entry_of_row pf) es (tail_rows n st)"
    by (intro Logger_tail_Inr) simp
  from a have t: "tail_rows n st = take (nat n) (order_by_ts_desc (audit_index st))"
    by (simp add: tail_rows_def sql_limit_def)
  have "length es = length (tail_rows n st)"
    using e by (rule list_all2_lengthD)
  then show "length es = min (nat n) (stats_count st)"
    by (simp add: t stats_count_def order_by_ts_desc_def min.commute)
  from e t show "list_all2 (entry_of_row pf) es (take (nat n) (order_by_ts_desc (audit_index st)))"
    by simp
  have "sorted_wrt (\<lambda>a b. ts b \<le> ts a) (tail_rows n st)"
    unfolding tail_rows_def by (intro sql_limit_sorted order_by_ts_desc_sorted)
  with e show "sorted_wrt (\<lambda>a b. e_ts b \<le> e_ts a) es"
    by (rule entries_sorted)
next
  fix t
  show "filter (\<lambda>r. ts r = t) (order_by_ts_desc (audit_index st))
      = filter (\<lambda>r. ts r = t) (audit_index st)"
    by (rule order_by_ts_desc_stable)
next
  assume "0 < n \<and> n < 2 ^ 63 \<and> list_all (decodable pf) (audit_index st)"
  then show "\<exists>es. Logger_tail pf n st = Inr es"
    using Logger_tail_rows [of n pf st] by auto
next
  assume a: "0 < n \<and> n < 2 ^ 63 \<and> list_all (\<lambda>c. payload_ok (c_payload c)) cs"
  then have "list_all (decodable pf) (audit_index (snd (run_appends sha256 cs Logger_init)))"
    by (intro run_appends_init_decodable) simp
  with a show "\<exists>es. Logger_tail pf n (snd (run_appends sha256 cs Logger_init)) = Inr es"
    using Logger_tail_rows [of n pf "snd (run_appends sha256 cs Logger_init)"] by auto
next
  show "Logger_tail pf n st \<noteq> Inl OutOfFuel"
    by (rule Logger_tail_fuel)
qed

theorem tail_returns_most_recent_witness:
  \<open>(0 :: int) < 1 \<and> (1 :: int) < 2 ^ 63
    \<and> list_all (\<lambda>c. payload_ok (c_payload c))
          [\<lparr>c_now = 1700000000, c_env = no_faults, c_source = lit ''svc1'',
             c_payload = PDict [(lit ''a'', PInt 1)]\<rparr>,
           \<lparr>c_now = 1700000005, c_env = no_faults, c_source = lit ''svc2'',
             c_payload = PDict [(lit ''b'', PInt 2)]\<rparr>]
    \<and> list_all (decodable zero_float) (audit_index (snd (run_appends zero_digest
          [\<lparr>c_now = 1700000000, c_env = no_faults, c_source = lit ''svc1'',
             c_payload = PDict [(lit ''a'', PInt 1)]\<rparr>,
           \<lparr>c_now = 1700000005, c_env = no_faults, c_source = lit ''svc2'',
             c_payload = PDict [(lit ''b'', PInt 2)]\<rparr>]
          Logger_init)))
    \<and> Logger_tail zero_float 1 (snd (run_appends zero_digest
          [\<lparr>c_now = 1700000000, c_env = no_faults, c_source = lit ''svc1'',
             c_payload = PDict [(lit ''a'', PInt 1)]\<rparr>,
           \<lparr>c_now = 1700000005, c_env = no_faults, c_source = lit ''svc2'',
             c_payload = PDict [(lit ''b'', PInt 2)]\<rparr>]
          Logger_init))
       = Inr [\<lparr>e_ts = 1700000005, e_sha = replicate 64 48, e_source = lit ''svc2'',
               e_payload = PDict [(lit ''b'', PInt 2)]\<rparr>]
    \<and> length [\<lparr>e_ts = 1700000005, e_sha = replicate 64 48, e_source = lit ''svc2'',
               e_payload = PDict [(lit ''b'', PInt 2)]\<rparr>] = min (nat 1) (stats_count (snd (run_appends zero_digest
          [\<lparr>c_now = 1700000000, c_env = no_faults, c_source = lit ''svc1'',
             c_payload = PDict [(lit ''a'', PInt 1)]\<rparr>,
           \<lparr>c_now = 1700000005, c_env = no_faults, c_source = lit ''svc2'',
             c_payload = PDict [(lit ''b'', PInt 2)]\<rparr>]
          Logger_init)))
    \<and> list_all2 (entry_of_row zero_float)
         [\<lparr>e_ts = 1700000005, e_sha = replicate 64 48, e_source = lit ''svc2'',
               e_payload = PDict [(lit ''b'', PInt 2)]\<rparr>]
         (take (nat 1) (order_by_ts_desc (audit_index (snd (run_appends zero_digest
          [\<lparr>c_now = 1700000000, c_env = no_faults, c_source = lit ''svc1'',
             c_payload = PDict [(lit ''a'', PInt 1)]\<rparr>,
           \<lparr>c_now = 1700000005, c_env = no_faults, c_source = lit ''svc2'',
             c_payload = PDict [(lit ''b'', PInt 2)]\<rparr>]
          Logger_init)))))
    \<and> (\<exists>es. Logger_tail zero_float 1 (snd (run_appends zero_digest
          [\<lparr>c_now = 1700000000, c_env = no_faults, c_source = lit ''svc1'',
             c_payload = PDict [(lit ''a'', PInt 1)]\<rparr>,
           \<lparr>c_now = 1700000005, c_env = no_faults, c_source = lit ''svc2'',
             c_payload = PDict [(lit ''b'', PInt 2)]\<rparr>]
          Logger_init)) = Inr es)\<close>
proof -
  let ?cs = \<open>[\<lparr>c_now = 1700000000, c_env = no_faults, c_source = lit ''svc1'',
             c_payload = PDict [(lit ''a'', PInt 1)]\<rparr>,
           \<lparr>c_now = 1700000005, c_env = no_faults, c_source = lit ''svc2'',
             c_payload = PDict [(lit ''b'', PInt 2)]\<rparr>]\<close>
  let ?st = "snd (run_appends zero_digest ?cs Logger_init)"
  let ?e = \<open>\<lparr>e_ts = 1700000005, e_sha = replicate 64 48, e_source = lit ''svc2'',
               e_payload = PDict [(lit ''b'', PInt 2)]\<rparr>\<close>
  have p: "list_all (\<lambda>c. payload_ok (c_payload c)) ?cs"
    by (simp add: lit_def digits.simps)
  have d: "list_all (decodable zero_float) (audit_index ?st)"
    unfolding two_appends_a_b using loads_a1 [of zero_float] loads_b2 [of zero_float]
    by (simp add: decodable_def lit_def)
  have t: "Logger_tail zero_float 1 ?st = Inr [?e]"
    unfolding two_appends_a_b using loads_a1 [of zero_float] loads_b2 [of zero_float]
    by (simp add: query_eval lit_def)
  have lo: "(0 :: int) < 1" and hi: "(1 :: int) < 2 ^ 63" by simp_all
  note th = tail_returns_most_recent
  from th [of 1 zero_float ?st "[?e]", THEN conjunct1, rule_format] lo t
  have 1: "length [?e] = min (nat 1) (stats_count ?st)
      \<and> list_all2 (entry_of_row zero_float) [?e]
          (take (nat 1) (order_by_ts_desc (audit_index ?st)))"
    by blast
  from th [of 1 zero_float ?st, THEN conjunct2, THEN conjunct2, THEN conjunct1, rule_format]
    lo hi d
  have 2: "\<exists>es. Logger_tail zero_float 1 ?st = Inr es" by blast
  from th [of 1 zero_float _ _ ?cs zero_digest, THEN conjunct2, THEN conjunct2, THEN conjunct2,
      THEN conjunct1, rule_format] lo hi p
  have 3: "\<exists>es. Logger_tail zero_float 1 ?st = Inr es" by blast
  from lo hi p d t 1 3 show ?thesis by blast
qed

text \<open>
  C3 as stated fails: after \<^verbatim>\<open>append("svc1", {"msg": "hello"})\<close> and
  \<^verbatim>\<open>append("svc2", {"msg": "world"})\<close> within the same second, \<^verbatim>\<open>tail(1)\<close> returns the
  record of \<^verbatim>\<open>svc1\<close>, the earlier of the two; \<^verbatim>\<open>tail(2**63)\<close> raises
  \<^verbatim>\<open>OverflowError\<close>; and on a store with one row whose payload text is not JSON,
  \<^verbatim>\<open>tail(1)\<close> raises \<^verbatim>\<open>JSONDecodeError\<close>.
\<close>

theorem tail_tie_order_counterexample:
  \<open>fst (run_appends zero_digest
          [\<lparr>c_now = 1700000000, c_env = no_faults, c_source = lit ''svc1'',
             c_payload = PDict [(lit ''msg'', PStr (lit ''hello''))]\<rparr>,
           \<lparr>c_now = 1700000000, c_env = no_faults, c_source = lit ''svc2'',
             c_payload = PDict [(lit ''msg'', PStr (lit ''world''))]\<rparr>]
          Logger_init) = [Inr (), Inr ()]
    \<and> Logger_tail zero_float 1 (snd (run_appends zero_digest
          [\<lparr>c_now = 1700000000, c_env = no_faults, c_source = lit ''svc1'',
             c_payload = PDict [(lit ''msg'', PStr (lit ''hello''))]\<rparr>,
           \<lparr>c_now = 1700000000, c_env = no_faults, c_source = lit ''svc2'',
             c_payload = PDict [(lit ''msg'', PStr (lit ''world''))]\<rparr>]
          Logger_init))
       = Inr [\<lparr>e_ts = 1700000000, e_sha = replicate 64 48, e_source = lit ''svc1'',
               e_payload = PDict [(lit ''msg'', PStr (lit ''hello''))]\<rparr>]
    \<and> Logger_tail zero_float (2 ^ 63) (snd (run_appends zero_digest
          [\<lparr>c_now = 1700000000, c_env = no_faults, c_source = lit ''svc1'',
             c_payload = PDict [(lit ''msg'', PStr (lit ''hello''))]\<rparr>,
           \<lparr>c_now = 1700000000, c_env = no_faults, c_source = lit ''svc2'',
             c_payload = PDict [(lit ''msg'', PStr (lit ''world''))]\<rparr>]
          Logger_init)) = Inl OverflowError
    \<and> Logger_tail zero_float 1 \<lparr>log_lines = [], audit_index = [\<lparr>ts = 1, sha = lit ''ab'', source = lit ''s'',
                                               payload = lit ''oops''\<rparr>]\<rparr> = Inl JSONDecodeError\<close>
proof -
  have 1: \<open>fst (run_appends zero_digest
          [\<lparr>c_now = 1700000000, c_env = no_faults, c_source = lit ''svc1'',
             c_payload = PDict [(lit ''msg'', PStr (lit ''hello''))]\<rparr>,
           \<lparr>c_now = 1700000000, c_env = no_faults, c_source = lit ''svc2'',
             c_payload = PDict [(lit ''msg'', PStr (lit ''world''))]\<rparr>]
          Logger_init) = [Inr (), Inr ()]
    \<and> Logger_tail zero_float 1 (snd (run_appends zero_digest
          [\<lparr>c_now = 1700000000, c_env = no_faults, c_source = lit ''svc1'',
             c_payload = PDict [(lit ''msg'', PStr (lit ''hello''))]\<rparr>,
           \<lparr>c_now = 1700000000, c_env = no_faults, c_source = lit ''svc2'',
             c_payload = PDict [(lit ''msg'', PStr (lit ''world''))]\<rparr>]
          Logger_init))
       = Inr [\<lparr>e_ts = 1700000000, e_sha = replicate 64 48, e_source = lit ''svc1'',
               e_payload = PDict [(lit ''msg'', PStr (lit ''hello''))]\<rparr>]
    \<and> Logger_tail zero_float (2 ^ 63) (snd (run_appends zero_digest
          [\<lparr>c_now = 1700000000, c_env = no_faults, c_source = lit ''svc1'',
             c_payload = PDict [(lit ''msg'', PStr (lit ''hello''))]\<rparr>,
           \<lparr>c_now = 1700000000, c_env = no_faults, c_source = lit ''svc2'',
             c_payload = PDict [(lit ''msg'', PStr (lit ''world''))]\<rparr>]
          Logger_init)) = Inl OverflowError\<close>
    unfolding two_appends_same_second
    using loads_msg_hello [of zero_float] loads_msg_world [of zero_float]
    by (simp add: query_eval lit_def)
  have 2: \<open>Logger_tail zero_float 1 \<lparr>log_lines = [], audit_index = [\<lparr>ts = 1, sha = lit ''ab'', source = lit ''s'',
                                               payload = lit ''oops''\<rparr>]\<rparr> = Inl JSONDecodeError\<close>
    using loads_not_json [of zero_float]
    by (simp add: Logger_tail_def bind_int_def tail_rows_def order_by_ts_desc_def sql_limit_def)
  from 1 2 show ?thesis by blast
qed

text \<open>
  C5, as the code has it. \<^verbatim>\<open>tail(0)\<close> returns the empty sequence on every store. For a
  negative \<open>n\<close>, \<^verbatim>\<open>LIMIT n\<close> is no limit: on every store, what \<^verbatim>\<open>tail(n)\<close> returns are the
  entries of all rows, most recent first; for \<open>- 2\<^sup>6\<^sup>3 \<le> n < 0\<close> the call returns when
  \<^verbatim>\<open>json.loads\<close> accepts the payload text of every row, which is so on the store left by
  every sequence of calls of \<^verbatim>\<open>append\<close> on a new store with payloads that satisfy
  \<open>payload_ok\<close>. Whatever the call does, the parser of the model has fuel enough for it.
\<close>

theorem tail_nonpositive:
  "Logger_tail pf 0 st = Inr []
   \<and> (n < 0 \<and> Logger_tail pf n st = Inr es \<longrightarrow>
        list_all2 (entry_of_row pf) es (order_by_ts_desc (audit_index st))
      \<and> length es = stats_count st)
   \<and> (n < 0 \<and> - (2 ^ 63) \<le> n \<and> list_all (decodable pf) (audit_index st) \<longrightarrow>
        (\<exists>es. Logger_tail pf n st = Inr es))
   \<and> (n < 0 \<and> - (2 ^ 63) \<le> n \<and> list_all (\<lambda>c. payload_ok (c_payload c)) cs \<longrightarrow>
        (\<exists>es. Logger_tail pf n (snd (run_appends sha256 cs Logger_init)) = Inr es))
   \<and> Logger_tail pf n st \<noteq> Inl OutOfFuel"
proof (intro conjI impI)
  show "Logger_tail pf 0 st = Inr []"
    by (simp add: Logger_tail_def bind_int_def tail_rows_def sql_limit_def)
next
  assume a: "n < 0 \<and> Logger_tail pf n st = Inr es"
  then have e: "list_all2 (entry_of_row pf) es (tail_rows n st)"
    by (intro Logger_tail_Inr) simp
  from a have t: "tail_rows n st = order_by_ts_desc (audit_index st)"
    by (simp add: tail_rows_def sql_limit_def)
  from e t show "list_all2 (entry_of_row pf) es (order_by_ts_desc (audit_index st))"
    by simp
  from e have "length es = length (tail_rows n st)"
    by (rule list_all2_lengthD)
  with t show "length es = stats_count st"
    by (simp add: stats_count_def order_by_ts_desc_def)
next
  assume a: "n < 0 \<and> - (2 ^ 63) \<le> n \<and> list_all (decodable pf) (audit_index st)"
  then have "n < 2 ^ 63" by (smt (verit) zero_less_power)
  with a show "\<exists>es. Logger_tail pf n st = Inr es"
    using Logger_tail_rows [of n pf st] by auto
next
  assume a: "n < 0 \<and> - (2 ^ 63) \<le> n \<and> list_all (\<lambda>c. payload_ok (c_payload c)) cs"
  then have "n < 2 ^ 63" by (smt (verit) zero_less_power)
  moreover from a
  have "list_all (decodable pf) (audit_index (snd (run_appends sha256 cs Logger_init)))"
    by (intro run_appends_init_decodable) simp
  ultimately show "\<exists>es. Logger_tail pf n (snd (run_appends sha256 cs Logger_init)) = Inr es"
    using a Logger_tail_rows [of n pf "snd (run_appends sha256 cs Logger_init)"] by auto
next
  show "Logger_tail pf n st \<noteq> Inl OutOfFuel"
    by (rule Logger_tail_fuel)
qed

theorem tail_nonpositive_witness:
  \<open>Logger_tail zero_float 0 (snd (run_appends zero_digest
          [\<lparr>c_now = 1700000000, c_env = no_faults, c_source = lit ''svc1'',
             c_payload = PDict [(lit ''a'', PInt 1)]\<rparr>,
           \<lparr>c_now = 1700000005, c_env = no_faults, c_source = lit ''svc2'',
             c_payload = PDict [(lit ''b'', PInt 2)]\<rparr>]
          Logger_init)) = Inr []
    \<and> (- 1 :: int) < 0 \<and> - (2 ^ 63) \<le> (- 1 :: int)
    \<and> list_all (\<lambda>c. payload_ok (c_payload c))
          [\<lparr>c_now = 1700000000, c_env = no_faults, c_source = lit ''svc1'',
             c_payload = PDict [(lit ''a'', PInt 1)]\<rparr>,
           \<lparr>c_now = 1700000005, c_env = no_faults, c_source = lit ''svc2'',
             c_payload = PDict [(lit ''b'', PInt 2)]\<rparr>]
    \<and> list_all (decodable zero_float) (audit_index (snd (run_appends zero_digest
          [\<lparr>c_now = 1700000000, c_env = no_faults, c_source = lit ''svc1'',
             c_payload = PDict [(lit ''a'', PInt 1)]\<rparr>,
           \<lparr>c_now = 1700000005, c_env = no_faults, c_source = lit ''svc2'',
             c_payload = PDict [(lit ''b'', PInt 2)]\<rparr>]
          Logger_init)))
    \<and> Logger_tail zero_float (- 1) (snd (run_appends zero_digest
          [\<lparr>c_now = 1700000000, c_env = no_faults, c_source = lit ''svc1'',
             c_payload = PDict [(lit ''a'', PInt 1)]\<rparr>,
           \<lparr>c_now = 1700000005, c_env = no_faults, c_source = lit ''svc2'',
             c_payload = PDict [(lit ''b'', PInt 2)]\<rparr>]
          Logger_init))
       = Inr [\<lparr>e_ts = 1700000005, e_sha = replicate 64 48, e_source = lit ''svc2'',
               e_payload = PDict [(lit ''b'', PInt 2)]\<rparr>,
              \<lparr>e_ts = 1700000000, e_sha = replicate 64 48, e_source = lit ''svc1'',
               e_payload = PDict [(lit ''a'', PInt 1)]\<rparr>]
    \<and> length [\<lparr>e_ts = 1700000005, e_sha = replicate 64 48, e_source = lit ''svc2'',
               e_payload = PDict [(lit ''b'', PInt 2)]\<rparr>,
              \<lparr>e_ts = 1700000000, e_sha = replicate 64 48, e_source = lit ''svc1'',
               e_payload = PDict [(lit ''a'', PInt 1)]\<rparr>] = stats_count (snd (run_appends zero_digest
          [\<lparr>c_now = 1700000000, c_env = no_faults, c_source = lit ''svc1'',
             c_payload = PDict [(lit ''a'', PInt 1)]\<rparr>,
           \<lparr>c_now = 1700000005, c_env = no_faults, c_source = lit ''svc2'',
             c_payload = PDict [(lit ''b'', PInt 2)]\<rparr>]
          Logger_init))
    \<and> (\<exists>es. Logger_tail zero_float (- 1) (snd (run_appends zero_digest
          [\<lparr>c_now = 1700000000, c_env = no_faults, c_source = lit ''svc1'',
             c_payload = PDict [(lit ''a'', PInt 1)]\<rparr>,
           \<lparr>c_now = 1700000005, c_env = no_faults, c_source = lit ''svc2'',
             c_payload = PDict [(lit ''b'', PInt 2)]\<rparr>]
          Logger_init)) = Inr es)\<close>
proof -
  let ?cs = \<open>[\<lparr>c_now = 1700000000, c_env = no_faults, c_source = lit ''svc1'',
             c_payload = PDict [(lit ''a'', PInt 1)]\<rparr>,
           \<lparr>c_now = 1700000005, c_env = no_faults, c_source = lit ''svc2'',
             c_payload = PDict [(lit ''b'', PInt 2)]\<rparr>]\<close>
  let ?st = "snd (run_appends zero_digest ?cs Logger_init)"
  let ?es = \<open>[\<lparr>e_ts = 1700000005, e_sha = replicate 64 48, e_source = lit ''svc2'',
               e_payload = PDict [(lit ''b'', PInt 2)]\<rparr>,
              \<lparr>e_ts = 1700000000, e_sha = replicate 64 48, e_source = lit ''svc1'',
               e_payload = PDict [(lit ''a'', PInt 1)]\<rparr>]\<close>
  have p: "list_all (\<lambda>c. payload_ok (c_payload c)) ?cs"
    by (simp add: lit_def digits.simps)
  have d: "list_all (decodable zero_float) (audit_index ?st)"
    unfolding two_appends_a_b using loads_a1 [of zero_float] loads_b2 [of zero_float]
    by (simp add: decodable_def lit_def)
  have t: "Logger_tail zero_float (- 1) ?st = Inr ?es"
    unfolding two_appends_a_b using loads_a1 [of zero_float] loads_b2 [of zero_float]
    by (simp add: query_eval lit_def)
  have lo: "(- 1 :: int) < 0" and hi: "- (2 ^ 63) \<le> (- 1 :: int)" by simp_all
  note th = tail_nonpositive
  have 0: "Logger_tail zero_float 0 ?st = Inr []"
    by (rule th [of zero_float ?st, THEN conjunct1])
  from th [of zero_float ?st "- 1" ?es, THEN conjunct2, THEN conjunct1, rule_format] lo t
  have 1: "length ?es = stats_count ?st" by blast
  from th [of zero_float ?st "- 1", THEN conjunct2, THEN conjunct2, THEN conjunct1, rule_format]
    lo hi d
  have 2: "\<exists>es. Logger_tail zero_float (- 1) ?st = Inr es" by blast
  from th [of zero_float _ "- 1" _ ?cs zero_digest, THEN conjunct2, THEN conjunct2,
      THEN conjunct2, THEN conjunct1, rule_format] lo hi p
  have 3: "\<exists>es. Logger_tail zero_float (- 1) ?st = Inr es" by blast
  from 0 lo hi p d t 1 3 show ?thesis by blast
qed

text \<open>
  C5 as stated fails: on a store of two rows \<^verbatim>\<open>tail(-1)\<close> returns both.
\<close>

theorem tail_negative_counterexample:
  \<open>Logger_tail zero_float (- 1) (snd (run_appends zero_digest
          [\<lparr>c_now = 1700000000, c_env = no_faults, c_source = lit ''svc1'',
             c_payload = PDict [(lit ''a'', PInt 1)]\<rparr>,
           \<lparr>c_now = 1700000005, c_env = no_faults, c_source = lit ''svc2'',
             c_payload = PDict [(lit ''b'', PInt 2)]\<rparr>]
          Logger_init))
       = Inr [\<lparr>e_ts = 1700000005, e_sha = replicate 64 48, e_source = lit ''svc2'',
               e_payload = PDict [(lit ''b'', PInt 2)]\<rparr>,
              \<lparr>e_ts = 1700000000, e_sha = replicate 64 48, e_source = lit ''svc1'',
               e_payload = PDict [(lit ''a'', PInt 1)]\<rparr>]\<close>
  unfolding two_appends_a_b
  using loads_a1 [of zero_float] loads_b2 [of zero_float]
  by (simp add: query_eval lit_def)
end
